theory Spec2Isabelle
  imports Main "HOL-Library.AList"
begin

section \<open>Bulk SMS campaign: \<open>src/pages/api/one-sms.ts\<close>\<close>

text \<open>
  JavaScript truthiness of a nullable string: \<open>null\<close>/\<open>undefined\<close> and the empty string
  are falsy. \<open>a || b\<close> on a nullable string and a default is \<open>or_else\<close>.
\<close>

definition truthy :: "string option \<Rightarrow> bool" where
  "truthy s = (case s of None \<Rightarrow> False | Some v \<Rightarrow> v \<noteq> [])"

definition or_else :: "string option \<Rightarrow> string \<Rightarrow> string" where
  "or_else s dflt = (case s of None \<Rightarrow> dflt | Some v \<Rightarrow> if v = [] then dflt else v)"

text \<open>A row of \<open>clientApi.getAllClientsForSMS()\<close>, with the fields the handler reads.\<close>

record client =
  id :: string
  name :: "string option"
  mobile :: "string option"
  qr_code :: "string option"

record SMSResult =
  mobile :: string
  name :: string
  success :: bool
  error :: "string option"
  messageId :: "string option"

record BulkSMSResponse =
  totalClients :: nat
  successCount :: nat
  failureCount :: nat
  results :: "SMSResult list"

text \<open>\<open>process.env\<close>: the two variables the handler reads, either of which may be unset.\<close>

record env =
  SEMAPHORE_API_KEY :: "string option"
  SEMAPHORE_SENDER_NAME :: "string option"

text \<open>
  The form fields of the POST to \<open>https://api.semaphore.co/api/v4/messages\<close>
  (the \<open>URLSearchParams\<close> before they are serialised).
\<close>

record request =
  apikey :: string
  number :: string
  message :: string
  sendername :: string
  type :: string

text \<open>
  What can be thrown and caught: the handler distinguishes an \<open>Error\<close> object, whose
  \<open>message\<close> it reports, from any other thrown value.
\<close>

datatype thrown = ErrorObj string | OtherValue

definition error_text :: "thrown \<Rightarrow> string \<Rightarrow> string" where
  "error_text e dflt = (case e of ErrorObj m \<Rightarrow> m | OtherValue \<Rightarrow> dflt)"

text \<open>
  One call of \<open>fetch\<close>: the promise rejects (a transport-level fault), or it resolves to a
  response with its \<open>ok\<close> flag and the outcome of \<open>response.text()\<close>, which may itself
  reject.
\<close>

datatype fetch_outcome = Rejected thrown | Resolved bool "thrown + string"

text \<open>
  The effects of a run that the outside can observe, in order: a call of the gateway and a
  \<open>setTimeout\<close> wait in milliseconds.
\<close>

datatype effect = Fetch request | Delay nat

text \<open>The bullet U+2022 of the message body, as its UTF-8 bytes.\<close>

definition bullet :: string where
  "bullet = [CHR 0xE2, CHR 0x80, CHR 0xA2]"

definition nl :: string where
  "nl = [CHR 0x0A]"

definition newUrl :: "client \<Rightarrow> string" where
  "newUrl c = ''https://presko-web.github.io/client-portal/new_experience.html?customerid='' @ id c"

definition smsMessage :: "client \<Rightarrow> string" where
  "smsMessage c =
     ''Hi '' @ or_else (client.name c) ''Valued Customer'' @ '','' @ nl @ nl @
     ''Good news! Your Presko account is now on our new website.'' @ nl @ nl @
     ''Access it here: '' @ newUrl c @ nl @ nl @
     ''New features:'' @ nl @
     bullet @ '' Multi-location support (Home, Office, Shop, etc.)'' @ nl @
     bullet @ '' Track cleaning per device'' @ nl @
     bullet @ '' Name your devices & locations (John AC, Reception, Pet Store, etc.)'' @ nl @
     bullet @ '' Download invoices (PDF)'' @ nl @
     bullet @ '' Share on Facebook & earn points faster''"

text \<open>
  \<open>String(apikey)\<close> of an unset variable is the text \<open>undefined\<close>; the sender name falls
  back to \<open>SEMAPHORE\<close>. \<open>String\<close> of a nullable string is the string itself, and the
  text \<open>null\<close> for null; the handler only reads \<open>client.mobile\<close> as a string where it
  is truthy.
\<close>

definition String :: "string option \<Rightarrow> string" where
  "String s = (case s of None \<Rightarrow> ''null'' | Some v \<Rightarrow> v)"

definition params :: "env \<Rightarrow> client \<Rightarrow> request" where
  "params e c =
     \<lparr>apikey = (case SEMAPHORE_API_KEY e of None \<Rightarrow> ''undefined'' | Some k \<Rightarrow> k),
      number = String (client.mobile c),
      message = smsMessage c,
      sendername = or_else (SEMAPHORE_SENDER_NAME e) ''SEMAPHORE'',
      type = ''normal''\<rparr>"

text \<open>
  The accumulators of the loop (\<open>results\<close>, \<open>successCount\<close>, \<open>failureCount\<close>) and the
  effects performed so far.
\<close>

record run_state =
  rs_results :: "SMSResult list"
  rs_successCount :: nat
  rs_failureCount :: nat
  rs_trace :: "effect list"

text \<open>The \<open>catch\<close> block of the loop body.\<close>

definition caught :: "client \<Rightarrow> thrown \<Rightarrow> run_state \<Rightarrow> run_state" where
  "caught c err st =
     st\<lparr>rs_results := rs_results st @
           [\<lparr>mobile = or_else (client.mobile c) ''N/A'',
             name = or_else (client.name c) ''Unknown'',
             success = False,
             error = Some (error_text err ''Unknown error''),
             messageId = None\<rparr>],
        rs_failureCount := rs_failureCount st + 1\<rparr>"

text \<open>
  One iteration of \<open>for (const client of clients)\<close>. \<open>fetch\<close> is the gateway's answer to
  the call this iteration makes, if it makes one.
\<close>

definition sendOne :: "env \<Rightarrow> (request \<Rightarrow> fetch_outcome) \<Rightarrow> client \<Rightarrow> run_state \<Rightarrow> run_state" where
  "sendOne e fetch c st =
     (if \<not> truthy (client.mobile c) \<or> \<not> truthy (qr_code c) then
        st\<lparr>rs_results := rs_results st @
              [\<lparr>mobile = or_else (client.mobile c) ''N/A'',
                name = or_else (client.name c) ''Unknown'',
                success = False,
                error = Some ''Missing mobile number or QR code'',
                messageId = None\<rparr>],
           rs_failureCount := rs_failureCount st + 1\<rparr>
      else
        let rq = params e c;
            st1 = st\<lparr>rs_trace := rs_trace st @ [Fetch rq]\<rparr>
        in case fetch rq of
             Rejected err \<Rightarrow> caught c err st1
           | Resolved ok txt \<Rightarrow>
               (case txt of
                  Inl err \<Rightarrow> caught c err st1
                | Inr responseData \<Rightarrow>
                    let st2 =
                      (if ok then
                         st1\<lparr>rs_results := rs_results st1 @
                               [\<lparr>mobile = String (client.mobile c),
                                 name = or_else (client.name c) ''Unknown'',
                                 success = True,
                                 error = None,
                                 messageId = Some ''sent''\<rparr>],
                             rs_successCount := rs_successCount st1 + 1\<rparr>
                       else
                         st1\<lparr>rs_results := rs_results st1 @
                               [\<lparr>mobile = String (client.mobile c),
                                 name = or_else (client.name c) ''Unknown'',
                                 success = False,
                                 error = Some (if responseData = [] then ''SMS sending failed''
                                               else responseData),
                                 messageId = None\<rparr>],
                             rs_failureCount := rs_failureCount st1 + 1\<rparr>)
                    in st2\<lparr>rs_trace := rs_trace st2 @ [Delay 2000]\<rparr>))"

text \<open>
  The loop. The gateway is an oracle: \<open>fetch i rq\<close> is what the call made for the
  recipient at position \<open>i\<close> of the list does when sent \<open>rq\<close>. The calls are sequential
  and there is at most one per recipient, so any gateway, stateful or not, is such a
  function on a given run.
\<close>

fun sendAll :: "env \<Rightarrow> (nat \<Rightarrow> request \<Rightarrow> fetch_outcome) \<Rightarrow> nat \<Rightarrow> client list \<Rightarrow> run_state \<Rightarrow> run_state" where
  "sendAll e fetch i [] st = st"
| "sendAll e fetch i (c # cs) st = sendAll e fetch (Suc i) cs (sendOne e (fetch i) c st)"

datatype body = Bulk BulkSMSResponse | ErrorBody string

text \<open>
  The handler: the request method, and what \<open>clientApi.getAllClientsForSMS()\<close> did (threw,
  or returned a possibly null list). It returns the HTTP status, the JSON body and the
  effects performed.
\<close>

definition handler ::
  "env \<Rightarrow> (nat \<Rightarrow> request \<Rightarrow> fetch_outcome) \<Rightarrow> string \<Rightarrow> thrown + client list option
     \<Rightarrow> (nat \<times> body) \<times> effect list" where
  "handler e fetch method getAllClientsForSMS =
     (if method \<noteq> ''POST'' then ((405, ErrorBody ''Method not allowed''), [])
      else case getAllClientsForSMS of
        Inl err \<Rightarrow> ((500, ErrorBody (error_text err ''Server error occurred'')), [])
      | Inr None \<Rightarrow>
          ((200, Bulk \<lparr>totalClients = 0, successCount = 0, failureCount = 0, results = []\<rparr>), [])
      | Inr (Some clients) \<Rightarrow>
          if length clients = 0 then
            ((200, Bulk \<lparr>totalClients = 0, successCount = 0, failureCount = 0, results = []\<rparr>), [])
          else
            let st = sendAll e fetch 0 clients
                       \<lparr>rs_results = [], rs_successCount = 0, rs_failureCount = 0, rs_trace = []\<rparr>
            in ((200, Bulk \<lparr>totalClients = length clients,
                            successCount = rs_successCount st,
                            failureCount = rs_failureCount st,
                            results = rs_results st\<rparr>),
                rs_trace st))"

section \<open>The campaign, recipient by recipient\<close>

text \<open>
  A recipient is eligible when the handler's guard lets it through; a call of the gateway
  has responded when both \<open>fetch\<close> and \<open>response.text()\<close> resolved.
\<close>

definition eligible :: "client \<Rightarrow> bool" where
  "eligible c = (truthy (client.mobile c) \<and> truthy (qr_code c))"

definition responded :: "fetch_outcome \<Rightarrow> bool" where
  "responded out =
     (case out of
        Rejected err \<Rightarrow> False
      | Resolved ok txt \<Rightarrow> (case txt of Inl err \<Rightarrow> False | Inr responseData \<Rightarrow> True))"

text \<open>What one iteration appends to \<open>results\<close> and the effects it performs.\<close>

definition init_state :: run_state where
  "init_state = \<lparr>rs_results = [], rs_successCount = 0, rs_failureCount = 0, rs_trace = []\<rparr>"

definition pushed :: "env \<Rightarrow> (request \<Rightarrow> fetch_outcome) \<Rightarrow> client \<Rightarrow> SMSResult" where
  "pushed e f c = last (rs_results (sendOne e f c init_state))"

definition performed :: "env \<Rightarrow> (request \<Rightarrow> fetch_outcome) \<Rightarrow> client \<Rightarrow> effect list" where
  "performed e f c = rs_trace (sendOne e f c init_state)"

text \<open>A run of three recipients, the second without a mobile number.\<close>

definition ann :: client where
  "ann = \<lparr>client.id = ''1'', client.name = Some ''Ann'',
          client.mobile = Some ''09170000001'', qr_code = Some ''qr-ann''\<rparr>"

definition bob :: client where
  "bob = \<lparr>client.id = ''2'', client.name = Some ''Bob'',
          client.mobile = Some [], qr_code = Some ''qr-bob''\<rparr>"

definition cyd :: client where
  "cyd = \<lparr>client.id = ''3'', client.name = None,
          client.mobile = Some ''09170000003'', qr_code = Some ''qr-cyd''\<rparr>"

definition demo_env :: env where
  "demo_env = \<lparr>SEMAPHORE_API_KEY = Some ''key'', SEMAPHORE_SENDER_NAME = None\<rparr>"

definition gateway_ok :: "nat \<Rightarrow> request \<Rightarrow> fetch_outcome" where
  "gateway_ok i rq = Resolved True (Inr ''Pending'')"

text \<open>A gateway that refuses the call for the first position, answers the one for the second
  and is unreachable from the third on.\<close>

definition gateway_flaky :: "nat \<Rightarrow> request \<Rightarrow> fetch_outcome" where
  "gateway_flaky i rq =
     (if i = 0 then Resolved False (Inr ''Invalid number'')
      else if i = 1 then Resolved True (Inr ''Pending'')
      else Rejected (ErrorObj ''fetch failed''))"

text \<open>The gateway calls and the waits of a sequence of effects, in order.\<close>

fun calls :: "effect list \<Rightarrow> request list" where
  "calls [] = []"
| "calls (Fetch rq # es) = rq # calls es"
| "calls (Delay ms # es) = calls es"

fun delays :: "effect list \<Rightarrow> nat list" where
  "delays [] = []"
| "delays (Fetch rq # es) = delays es"
| "delays (Delay ms # es) = ms # delays es"

text \<open>The recipient at position \<open>i\<close> is eligible and the call made for it got a response.\<close>

definition answered :: "env \<Rightarrow> (nat \<Rightarrow> request \<Rightarrow> fetch_outcome) \<Rightarrow> client list \<Rightarrow> nat \<Rightarrow> bool" where
  "answered e fetch clients i =
     (eligible (clients ! i) \<and> responded (fetch i (params e (clients ! i))))"

text \<open>The report and the effects of the run of the three recipients against the gateway
  that refuses, answers and then fails.\<close>

definition flaky_report :: BulkSMSResponse where
  "flaky_report =
     \<lparr>totalClients = 3, successCount = 0, failureCount = 3,
      results =
        [\<lparr>SMSResult.mobile = ''09170000001'', SMSResult.name = ''Ann'', success = False,
          error = Some ''Invalid number'', messageId = None\<rparr>,
         \<lparr>SMSResult.mobile = ''N/A'', SMSResult.name = ''Bob'', success = False,
          error = Some ''Missing mobile number or QR code'', messageId = None\<rparr>,
         \<lparr>SMSResult.mobile = ''09170000003'', SMSResult.name = ''Unknown'', success = False,
          error = Some ''fetch failed'', messageId = None\<rparr>]\<rparr>"

definition flaky_trace :: "effect list" where
  "flaky_trace = [Fetch (params demo_env ann), Delay 2000, Fetch (params demo_env cyd)]"

section \<open>Dates\<close>

text \<open>
  A value of a \<open>DATE\<close> column, which reaches the components as the text \<open>YYYY-MM-DD\<close>.
  On such texts (four-digit years, zero-padded) JavaScript's \<open><\<close> on strings is the
  lexicographic order on (year, month, day): \<open>date_less\<close>.
\<close>

record date =
  year :: nat
  month :: nat
  day :: nat

definition date_less :: "date \<Rightarrow> date \<Rightarrow> bool" where
  "date_less a b =
     (year a < year b \<or> (year a = year b \<and> (month a < month b \<or> (month a = month b \<and> day a < day b))))"

definition date_le :: "date \<Rightarrow> date \<Rightarrow> bool" where
  "date_le a b = (date_less a b \<or> a = b)"

definition is_leap :: "nat \<Rightarrow> bool" where
  "is_leap y = (y mod 4 = 0 \<and> (y mod 100 \<noteq> 0 \<or> y mod 400 = 0))"

definition days_in_month :: "nat \<Rightarrow> nat \<Rightarrow> nat" where
  "days_in_month y m =
     (if m = 2 then (if is_leap y then 29 else 28)
      else if m = 4 \<or> m = 6 \<or> m = 9 \<or> m = 11 then 30 else 31)"

definition valid_date :: "date \<Rightarrow> bool" where
  "valid_date d = (1 \<le> month d \<and> month d \<le> 12 \<and> 1 \<le> day d \<and> day d \<le> days_in_month (year d) (month d))"

text \<open>
  The number of days from 1970-01-01 to a date of the proleptic Gregorian calendar.
  \<open>new Date('YYYY-MM-DD')\<close> is midnight UTC of that day, so \<open>getTime()\<close> is that
  number of days in milliseconds.
\<close>

definition days_from_civil :: "date \<Rightarrow> int" where
  "days_from_civil d =
     (let y = int (year d) - (if month d \<le> 2 then 1 else 0);
          mp = (int (month d) + 9) mod 12;
          doy = (153 * mp + 2) div 5 + int (day d) - 1
      in 365 * y + y div 4 - y div 100 + y div 400 + doy - 719468)"

definition msPerDay :: int where
  "msPerDay = 1000 * 60 * 60 * 24"

definition getTime :: "date \<Rightarrow> int" where
  "getTime d = days_from_civil d * msPerDay"

section \<open>The day number, year by year and month by month\<close>

text \<open>
  The parts of \<open>days_from_civil\<close>: the days before a year that begins in March, the
  days of such a year before a month, counted from March as month 0, and the extra day of
  a leap year.
\<close>

definition year_days :: "int \<Rightarrow> int" where
  "year_days y = 365 * y + y div 4 - y div 100 + y div 400"

definition march_year :: "date \<Rightarrow> int" where
  "march_year d = int (year d) - (if month d \<le> 2 then 1 else 0)"

definition march_month :: "date \<Rightarrow> int" where
  "march_month d = (int (month d) + 9) mod 12"

definition month_start :: "int \<Rightarrow> int" where
  "month_start mp = (153 * mp + 2) div 5"

definition leap_day :: "int \<Rightarrow> int" where
  "leap_day n = (if n mod 4 = 0 \<and> (n mod 100 \<noteq> 0 \<or> n mod 400 = 0) then 1 else 0)"

section \<open>Generated due dates: \<open>src/supabase/migrations/presko_migration.sql\<close>\<close>

text \<open>
  PostgreSQL's \<open>date + INTERVAL 'k months'\<close>, stored in a \<open>DATE\<close> column: the month
  moves forward by \<open>k\<close>, carrying into the year, and a day of the month that the target
  month does not have becomes that month's last day. \<open>NULL\<close> plus an interval is
  \<open>NULL\<close>.
\<close>

definition add_months :: "nat \<Rightarrow> date \<Rightarrow> date" where
  "add_months k d =
     (let t = year d * 12 + (month d - 1) + k;
          y = t div 12;
          m = t mod 12 + 1
      in \<lparr>year = y, month = m, day = min (day d) (days_in_month y m)\<rparr>)"

definition due_3_months_generated :: "date option \<Rightarrow> date option" where
  "due_3_months_generated last_cleaning_date = map_option (add_months 3) last_cleaning_date"

definition due_4_months_generated :: "date option \<Rightarrow> date option" where
  "due_4_months_generated last_cleaning_date = map_option (add_months 4) last_cleaning_date"

definition due_6_months_generated :: "date option \<Rightarrow> date option" where
  "due_6_months_generated last_cleaning_date = map_option (add_months 6) last_cleaning_date"

section \<open>Device status: \<open>src/components/client/client_components/ClientDevicesTable.tsx\<close>\<close>

text \<open>The fields of \<open>Device\<close> that \<open>getDeviceStatus\<close> reads. A date text is never empty, so
  a date field is truthy exactly when it is not null.\<close>

record Device =
  last_cleaning_date :: "date option"
  due_3_months :: "date option"
  due_4_months :: "date option"
  due_6_months :: "date option"
  last_repair_date :: "date option"

text \<open>
  \<open>now\<close> is \<open>new Date().getTime()\<close>, the current instant in milliseconds since the epoch.
  \<open>Array.prototype.sort\<close> is stable, as \<open>sort_key\<close> is.
\<close>

definition getDeviceStatus :: "int \<Rightarrow> Device \<Rightarrow> string" where
  "getDeviceStatus now device =
     (if last_repair_date device \<noteq> None then ''repair''
      else if due_3_months device \<noteq> None \<or> due_4_months device \<noteq> None \<or> due_6_months device \<noteq> None then
        let dueDates = List.map_filter (\<lambda>d. d) [due_3_months device, due_4_months device, due_6_months device];
            nearestDue = (case sort_key getTime dueDates of [] \<Rightarrow> None | x # _ \<Rightarrow> Some x)
        in (case nearestDue of
              Some n \<Rightarrow> if getTime n < now then ''due'' else ''maintain''
            | None \<Rightarrow> ''maintain'')
      else if last_cleaning_date device = None then ''scheduled''
      else ''scheduled'')"

text \<open>The row the database hands out for a device: the three due dates are generated.\<close>

definition device_row :: "date option \<Rightarrow> date option \<Rightarrow> Device" where
  "device_row lcd lrd =
     \<lparr>last_cleaning_date = lcd,
      due_3_months = due_3_months_generated lcd,
      due_4_months = due_4_months_generated lcd,
      due_6_months = due_6_months_generated lcd,
      last_repair_date = lrd\<rparr>"

section \<open>Device status, date by date\<close>

text \<open>The non-null due dates of a device, as \<open>getDeviceStatus\<close> collects them.\<close>

definition dueDates_of :: "Device \<Rightarrow> date list" where
  "dueDates_of device =
     List.map_filter (\<lambda>d. d) [due_3_months device, due_4_months device, due_6_months device]"

text \<open>
  The classifier as specified, with a date-only comparison: the nearest due date against
  the calendar day of \<open>now\<close> (the day number of an instant is its milliseconds divided by
  the milliseconds of a day), with no time of day on either side.
\<close>

definition classify_date_only :: "int \<Rightarrow> Device \<Rightarrow> string" where
  "classify_date_only now device =
     (if last_repair_date device \<noteq> None then ''repair''
      else if dueDates_of device = [] then ''scheduled''
      else if Min (set (map days_from_civil (dueDates_of device))) < now div msPerDay then ''due''
      else ''maintain'')"

text \<open>
  A device cleaned on 2023-11-15, so due on 2024-02-15, 2024-03-15 and 2024-05-15; the
  instants 2024-02-14 12:00 UTC and 2024-02-15 15:00 UTC. A second device, cleaned in
  2001 and since repaired.
\<close>

definition cleaned :: date where
  "cleaned = \<lparr>year = 2023, month = 11, day = 15\<rparr>"

definition noon_before :: int where
  "noon_before = 1707912000000"

definition afternoon_due_day :: int where
  "afternoon_due_day = 1708009200000"

definition repaired_device :: Device where
  "repaired_device =
     device_row (Some \<lparr>year = 2001, month = 3, day = 4\<rparr>) (Some \<lparr>year = 2024, month = 2, day = 2\<rparr>)"

section \<open>Overdue devices: \<open>src/components/admin/dashboard/DevicesOverdueCard.tsx\<close>\<close>

text \<open>The fields of \<open>DeviceOverdue\<close> that the grouping reads.\<close>

record DeviceOverdue =
  id :: string
  name :: string
  client_name :: string
  location_name :: string
  due_type :: string
  due_date :: date

text \<open>
  A value of the accumulator object: the names of the first record of the group and the
  \<open>Map\<close> from device key to the retained record. A \<open>Map\<close>, and an object whose keys are
  not array indices (these all contain a hyphen), keep their keys in the order of first
  insertion, and setting a key that is present replaces its value in place: an association
  list under \<open>AList.update\<close>.
\<close>

record overdue_group =
  client_name :: string
  location_name :: string
  devices :: "(string \<times> DeviceOverdue) list"

definition clientKey :: "DeviceOverdue \<Rightarrow> string" where
  "clientKey device = DeviceOverdue.client_name device @ ''-'' @ DeviceOverdue.location_name device"

definition deviceKey :: "DeviceOverdue \<Rightarrow> string" where
  "deviceKey device = DeviceOverdue.id device @ ''-'' @ DeviceOverdue.name device"

definition getServicePriority :: "string \<Rightarrow> nat" where
  "getServicePriority dueType =
     (if dueType = ''due_6_months'' then 3
      else if dueType = ''due_4_months'' then 2
      else 1)"

text \<open>
  \<open>Math.ceil((today.getTime() - due.getTime()) / (1000 * 60 * 60 * 24))\<close>, where
  \<open>today\<close> is the current instant in milliseconds. The quotient of two integers rounded
  up is \<open>- ((- a) div b)\<close>; at the magnitudes of timestamps the floating-point quotient
  rounds up to the same integer.
\<close>

definition daysOverdue :: "int \<Rightarrow> date \<Rightarrow> int" where
  "daysOverdue today due = - ((- (today - getTime due)) div msPerDay)"

text \<open>
  The callback of \<open>devices.reduce\<close>. \<open>today\<close> is what \<open>new Date()\<close> reads in this call.
\<close>

definition reducer :: "int \<Rightarrow> (string \<times> overdue_group) list \<Rightarrow> DeviceOverdue \<Rightarrow> (string \<times> overdue_group) list" where
  "reducer today acc device =
     (let ck = clientKey device;
          acc1 = (case map_of acc ck of
                    None \<Rightarrow> AList.update ck
                              \<lparr>client_name = DeviceOverdue.client_name device,
                               location_name = DeviceOverdue.location_name device,
                               devices = []\<rparr> acc
                  | Some g \<Rightarrow> acc);
          grp = (case map_of acc ck of
                   None \<Rightarrow> \<lparr>client_name = DeviceOverdue.client_name device,
                            location_name = DeviceOverdue.location_name device,
                            devices = []\<rparr>
                 | Some g \<Rightarrow> g);
          dk = deviceKey device;
          existingDevice = map_of (devices grp) dk;
          devices_set = AList.update ck (grp\<lparr>devices := AList.update dk device (devices grp)\<rparr>) acc1
      in case existingDevice of
           None \<Rightarrow> devices_set
         | Some existing \<Rightarrow>
             let currentPriority = getServicePriority (due_type device);
                 existingPriority = getServicePriority (due_type existing)
             in if currentPriority > existingPriority then devices_set
                else if currentPriority = existingPriority then
                  (let currentDaysOverdue = daysOverdue today (due_date device);
                       existingDaysOverdue = daysOverdue today (due_date existing)
                   in if currentDaysOverdue > existingDaysOverdue then devices_set else acc1)
                else acc1)"

text \<open>
  \<open>devices.reduce(..., {})\<close>. The callback reads the clock itself, so \<open>clock i\<close> is the
  instant read while the record at position \<open>i\<close> is processed.
\<close>

fun reduce_from :: "(nat \<Rightarrow> int) \<Rightarrow> nat \<Rightarrow> (string \<times> overdue_group) list \<Rightarrow> DeviceOverdue list
    \<Rightarrow> (string \<times> overdue_group) list" where
  "reduce_from clock i acc [] = acc"
| "reduce_from clock i acc (device # rest) = reduce_from clock (Suc i) (reducer (clock i) acc device) rest"

definition groupedDevices :: "(nat \<Rightarrow> int) \<Rightarrow> DeviceOverdue list \<Rightarrow> (string \<times> overdue_group) list" where
  "groupedDevices clock devs = reduce_from clock 0 [] devs"

text \<open>\<open>clientGroups\<close>: the groups in key order, each with the retained records as an array.\<close>

record client_group =
  client_name :: string
  location_name :: string
  devices :: "DeviceOverdue list"

definition clientGroups :: "(nat \<Rightarrow> int) \<Rightarrow> DeviceOverdue list \<Rightarrow> client_group list" where
  "clientGroups clock devs =
     map (\<lambda>(k, g). \<lparr>client_name = overdue_group.client_name g,
                    location_name = overdue_group.location_name g,
                    devices = map snd (overdue_group.devices g)\<rparr>)
         (groupedDevices clock devs)"

text \<open>
  The order the resolver is specified by: interval priority first, then days overdue
  counted in whole calendar days, from midnight to midnight, up to the day \<open>today_day\<close>
  (a day number); lexicographic.
\<close>

definition days_overdue_calendar :: "int \<Rightarrow> date \<Rightarrow> int" where
  "days_overdue_calendar today_day due = today_day - days_from_civil due"

definition more_urgent :: "int \<Rightarrow> DeviceOverdue \<Rightarrow> DeviceOverdue \<Rightarrow> bool" where
  "more_urgent today_day a b =
     (getServicePriority (due_type a) > getServicePriority (due_type b)
      \<or> (getServicePriority (due_type a) = getServicePriority (due_type b)
          \<and> days_overdue_calendar today_day (due_date a) > days_overdue_calendar today_day (due_date b)))"

definition same_device :: "DeviceOverdue \<Rightarrow> DeviceOverdue \<Rightarrow> bool" where
  "same_device a b = (clientKey a = clientKey b \<and> deviceKey a = deviceKey b)"

text \<open>
  The order the callback itself applies to the record at hand and the one already kept:
  interval priority first, then the count \<open>daysOverdue\<close> at the instant \<open>today\<close> that the
  call reads.
\<close>

definition more_urgent_at :: "int \<Rightarrow> DeviceOverdue \<Rightarrow> DeviceOverdue \<Rightarrow> bool" where
  "more_urgent_at today a b =
     (getServicePriority (due_type a) > getServicePriority (due_type b)
      \<or> (getServicePriority (due_type a) = getServicePriority (due_type b)
          \<and> daysOverdue today (due_date a) > daysOverdue today (due_date b)))"

section \<open>Overdue groups: the state of the accumulator\<close>

text \<open>
  All the records the resolver keeps, group after group, and what it tells devices apart
  by: the key of the group and the key within the group.
\<close>

definition retained :: "(nat \<Rightarrow> int) \<Rightarrow> DeviceOverdue list \<Rightarrow> DeviceOverdue list" where
  "retained clock devs = concat (map client_group.devices (clientGroups clock devs))"

definition device_identity :: "DeviceOverdue \<Rightarrow> string \<times> string" where
  "device_identity d = (clientKey d, deviceKey d)"

text \<open>
  \<open>r\<close> is the first most urgent record of its device in \<open>devs\<close>: every record of the
  same device before it is strictly less urgent, and none after it is more urgent.
\<close>

definition first_max :: "int \<Rightarrow> DeviceOverdue list \<Rightarrow> DeviceOverdue \<Rightarrow> bool" where
  "first_max today_day devs r =
     (\<exists>pre post. devs = pre @ r # post
        \<and> (\<forall>d \<in> set pre. same_device d r \<longrightarrow> more_urgent today_day r d)
        \<and> (\<forall>d \<in> set post. same_device d r \<longrightarrow> \<not> more_urgent today_day d r))"

text \<open>
  What holds of the accumulator once the records \<open>devs\<close> have been reduced: keys occur
  once, every stored record sits under its own keys and is the first most urgent of its
  device, and every record seen has an entry for its device.
\<close>

definition acc_inv :: "int \<Rightarrow> DeviceOverdue list \<Rightarrow> (string \<times> overdue_group) list \<Rightarrow> bool" where
  "acc_inv today_day devs acc =
     (distinct (map fst acc)
      \<and> (\<forall>ck g. map_of acc ck = Some g \<longrightarrow>
            distinct (map fst (overdue_group.devices g))
            \<and> (\<forall>dk r. map_of (overdue_group.devices g) dk = Some r \<longrightarrow>
                  clientKey r = ck \<and> deviceKey r = dk \<and> first_max today_day devs r))
      \<and> (\<forall>d \<in> set devs. \<exists>g. map_of acc (clientKey d) = Some g
            \<and> map_of (overdue_group.devices g) (deviceKey d) \<noteq> None))"

text \<open>
  The callback in short: the group the record belongs to (a new one if there is none yet)
  and whether the record takes the place under its device key.
\<close>

definition fresh_group :: "DeviceOverdue \<Rightarrow> overdue_group" where
  "fresh_group device = \<lparr>overdue_group.client_name = DeviceOverdue.client_name device,
       overdue_group.location_name = DeviceOverdue.location_name device,
       overdue_group.devices = []\<rparr>"

definition group_of :: "(string \<times> overdue_group) list \<Rightarrow> DeviceOverdue \<Rightarrow> overdue_group" where
  "group_of acc device = (case map_of acc (clientKey device) of None \<Rightarrow> fresh_group device | Some g \<Rightarrow> g)"

definition replaces :: "int \<Rightarrow> (string \<times> overdue_group) list \<Rightarrow> DeviceOverdue \<Rightarrow> bool" where
  "replaces today_day acc device =
     (case map_of (overdue_group.devices (group_of acc device)) (deviceKey device) of
        None \<Rightarrow> True
      | Some existing \<Rightarrow> more_urgent today_day device existing)"

section \<open>Devices due soon: \<open>src/components/admin/dashboard/DevicesDueCard.tsx\<close>\<close>

text \<open>The fields of \<open>DeviceDueSoon\<close> that the grouping reads.\<close>

record DeviceDueSoon =
  name :: string
  client_name :: string
  location_name :: string
  due_date :: date
  due_type :: string

record GroupedClient =
  clientName :: string
  locationName :: string
  devices :: "DeviceDueSoon list"
  earliestDueDate :: date
  totalDevices :: nat

definition key :: "DeviceDueSoon \<Rightarrow> string" where
  "key device = DeviceDueSoon.client_name device @ ''-'' @ DeviceDueSoon.location_name device"

text \<open>The callback of \<open>devices.forEach\<close>, on the \<open>Map\<close> \<open>clientMap\<close>.\<close>

definition forEach_body :: "(string \<times> GroupedClient) list \<Rightarrow> DeviceDueSoon \<Rightarrow> (string \<times> GroupedClient) list" where
  "forEach_body clientMap device =
     (let k = key device;
          group0 = (case map_of clientMap k of
                      None \<Rightarrow> \<lparr>clientName = DeviceDueSoon.client_name device,
                               locationName = DeviceDueSoon.location_name device,
                               devices = [],
                               earliestDueDate = DeviceDueSoon.due_date device,
                               totalDevices = 0\<rparr>
                    | Some g \<Rightarrow> g);
          group1 = group0\<lparr>devices := GroupedClient.devices group0 @ [device]\<rparr>;
          group2 = group1\<lparr>totalDevices := length (GroupedClient.devices group1)\<rparr>;
          group3 = (if date_less (DeviceDueSoon.due_date device) (earliestDueDate group2)
                    then group2\<lparr>earliestDueDate := DeviceDueSoon.due_date device\<rparr>
                    else group2)
      in AList.update k group3 clientMap)"

definition clientMap_of :: "DeviceDueSoon list \<Rightarrow> (string \<times> GroupedClient) list" where
  "clientMap_of devs = foldl forEach_body [] devs"

text \<open>
  \<open>Array.from(clientMap.values()).sort((a, b) => time a - time b)\<close>: a stable sort on the
  time of the earliest due date.
\<close>

definition groupedClients :: "DeviceDueSoon list \<Rightarrow> GroupedClient list" where
  "groupedClients devs = sort_key (\<lambda>g. getTime (earliestDueDate g)) (map snd (clientMap_of devs))"

section \<open>Due-soon groups: the state of the map\<close>



section \<open>Sample dates and records\<close>



definition feb01 :: date where
  "feb01 = \<lparr>year = 2024, month = 2, day = 1\<rparr>"

definition feb10 :: date where
  "feb10 = \<lparr>year = 2024, month = 2, day = 10\<rparr>"

definition mar05 :: date where
  "mar05 = \<lparr>year = 2024, month = 3, day = 5\<rparr>"

definition due_soon :: "string \<Rightarrow> string \<Rightarrow> string \<Rightarrow> date \<Rightarrow> DeviceDueSoon" where
  "due_soon n c l d =
     \<lparr>DeviceDueSoon.name = n, DeviceDueSoon.client_name = c, DeviceDueSoon.location_name = l,
      DeviceDueSoon.due_date = d, DeviceDueSoon.due_type = ''3_months''\<rparr>"

definition overdue :: "string \<Rightarrow> string \<Rightarrow> string \<Rightarrow> string \<Rightarrow> string \<Rightarrow> date \<Rightarrow> DeviceOverdue" where
  "overdue i n c l t d =
     \<lparr>DeviceOverdue.id = i, DeviceOverdue.name = n, DeviceOverdue.client_name = c,
      DeviceOverdue.location_name = l, DeviceOverdue.due_type = t, DeviceOverdue.due_date = d\<rparr>"

text \<open>A clock that starts on the afternoon of 2024-02-15 and moves on between records.\<close>

definition ticking_clock :: "nat \<Rightarrow> int" where
  "ticking_clock i = afternoon_due_day + 1000 * int i"

section \<open>The campaign reports on every recipient\<close>

lemma sendOne_results: "rs_results (sendOne e f c st) = rs_results st @ [pushed e f c]"
  by (simp add: pushed_def init_state_def sendOne_def caught_def Let_def
      split: fetch_outcome.split sum.split)

lemma sendOne_trace: "rs_trace (sendOne e f c st) = rs_trace st @ performed e f c"
  by (simp add: performed_def init_state_def sendOne_def caught_def Let_def
      split: fetch_outcome.split sum.split)

lemma sendOne_success:
  "rs_successCount (sendOne e f c st) = rs_successCount st + (if success (pushed e f c) then 1 else 0)"
  by (simp add: pushed_def init_state_def sendOne_def caught_def Let_def
      split: fetch_outcome.split sum.split)

lemma sendOne_failure:
  "rs_failureCount (sendOne e f c st) = rs_failureCount st + (if success (pushed e f c) then 0 else 1)"
  by (simp add: pushed_def init_state_def sendOne_def caught_def Let_def
      split: fetch_outcome.split sum.split)

text \<open>The loop appends, for each recipient in turn, what its iteration pushes.\<close>

lemma sendAll_results:
  "rs_results (sendAll e fetch i cs st)
     = rs_results st @ map (\<lambda>j. pushed e (fetch (i + j)) (cs ! j)) [0..<length cs]"
proof (induction cs arbitrary: i st)
  case Nil
  show ?case by simp
next
  case (Cons c cs)
  show ?case
    by (simp add: Cons.IH sendOne_results map_upt_Suc del: upt_Suc)
qed

lemma sendAll_trace:
  "rs_trace (sendAll e fetch i cs st)
     = rs_trace st @ concat (map (\<lambda>j. performed e (fetch (i + j)) (cs ! j)) [0..<length cs])"
proof (induction cs arbitrary: i st)
  case Nil
  show ?case by simp
next
  case (Cons c cs)
  show ?case
    by (simp add: Cons.IH sendOne_trace map_upt_Suc del: upt_Suc)
qed

lemma sendAll_success:
  "rs_successCount (sendAll e fetch i cs st)
     = rs_successCount st
       + length (filter success (map (\<lambda>j. pushed e (fetch (i + j)) (cs ! j)) [0..<length cs]))"
proof (induction cs arbitrary: i st)
  case Nil
  show ?case by simp
next
  case (Cons c cs)
  show ?case
    by (simp add: Cons.IH sendOne_success map_upt_Suc del: upt_Suc)
qed

lemma sendAll_failure:
  "rs_failureCount (sendAll e fetch i cs st)
     = rs_failureCount st
       + length (filter (\<lambda>r. \<not> success r)
                   (map (\<lambda>j. pushed e (fetch (i + j)) (cs ! j)) [0..<length cs]))"
proof (induction cs arbitrary: i st)
  case Nil
  show ?case by simp
next
  case (Cons c cs)
  show ?case
    by (simp add: Cons.IH sendOne_failure map_upt_Suc del: upt_Suc)
qed

lemma String_truthy: "truthy s \<Longrightarrow> String s = or_else s d"
  by (cases s) (simp_all add: truthy_def String_def or_else_def)

lemma pushed_who:
  "SMSResult.mobile (pushed e f c) = or_else (client.mobile c) ''N/A''"
  "SMSResult.name (pushed e f c) = or_else (client.name c) ''Unknown''"
  by (simp_all add: pushed_def init_state_def sendOne_def caught_def Let_def String_truthy
      split: fetch_outcome.split sum.split)

lemma handler_POST:
  "handler e fetch ''POST'' (Inr (Some clients))
     = ((200, Bulk \<lparr>totalClients = length clients,
                    successCount = rs_successCount (sendAll e fetch 0 clients init_state),
                    failureCount = rs_failureCount (sendAll e fetch 0 clients init_state),
                    results = rs_results (sendAll e fetch 0 clients init_state)\<rparr>),
        rs_trace (sendAll e fetch 0 clients init_state))"
  by (cases clients) (simp_all add: handler_def init_state_def Let_def)

lemma length_filter_compl:
  "length (filter P xs) + length (filter (\<lambda>x. \<not> P x) xs) = length xs"
  by (induction xs) auto

text \<open>
  C1. Whatever the recipient list and whatever the gateway does, a POST answers 200 with a
  report whose \<open>successCount\<close> and \<open>failureCount\<close> add up to the number of recipients and
  whose \<open>results\<close> hold one entry per recipient, in the order of the list: the entry at
  each position carries the mobile number and name of the recipient at that position (with
  the handler's placeholders for missing ones).
\<close>

theorem C1_one_result_per_recipient:
  "\<exists>r tr. handler e fetch ''POST'' (Inr (Some clients)) = ((200, Bulk r), tr)
     \<and> successCount r + failureCount r = length clients
     \<and> length (results r) = length clients
     \<and> map (\<lambda>x. (SMSResult.mobile x, SMSResult.name x)) (results r)
         = map (\<lambda>c. (or_else (client.mobile c) ''N/A'', or_else (client.name c) ''Unknown'')) clients"
proof -
  let ?ps = "map (\<lambda>j. pushed e (fetch (0 + j)) (clients ! j)) [0..<length clients]"
  have cnt: "length (filter success ?ps) + length (filter (\<lambda>r. \<not> success r) ?ps) = length clients"
    using length_filter_compl [of success ?ps] by simp
  have who: "map (\<lambda>x. (SMSResult.mobile x, SMSResult.name x)) ?ps
      = map (\<lambda>c. (or_else (client.mobile c) ''N/A'', or_else (client.name c) ''Unknown'')) clients"
    by (rule nth_equalityI) (simp_all add: pushed_who)
  show ?thesis
    unfolding handler_POST
    using cnt who
    by (simp add: sendAll_results sendAll_success sendAll_failure init_state_def)
qed

theorem C1_one_result_per_recipient_witness:
  "\<exists>r tr. handler demo_env gateway_flaky ''POST'' (Inr (Some [ann, bob, cyd])) = ((200, Bulk r), tr)
     \<and> successCount r + failureCount r = 3
     \<and> length (results r) = 3
     \<and> map (\<lambda>x. (SMSResult.mobile x, SMSResult.name x)) (results r)
         = [(''09170000001'', ''Ann''), (''N/A'', ''Bob''), (''09170000003'', ''Unknown'')]"
  using C1_one_result_per_recipient [of demo_env gateway_flaky "[ann, bob, cyd]"]
  by (simp add: ann_def bob_def cyd_def or_else_def numeral_3_eq_3)

section \<open>Failures stay with their recipient\<close>

lemma calls_append: "calls (xs @ ys) = calls xs @ calls ys"
  by (induction xs rule: calls.induct) simp_all

lemma delays_append: "delays (xs @ ys) = delays xs @ delays ys"
  by (induction xs rule: delays.induct) simp_all

lemma delays_concat: "delays (concat xss) = concat (map delays xss)"
  by (induction xss) (simp_all add: delays_append)

lemma concat_if_replicate:
  "concat (map (\<lambda>i. if P i then [a] else []) xs) = replicate (length (filter P xs)) a"
  by (induction xs) simp_all

lemma performed_cases:
  "performed e f c =
     (if \<not> eligible c then []
      else if responded (f (params e c)) then [Fetch (params e c), Delay 2000]
      else [Fetch (params e c)])"
  by (simp add: performed_def init_state_def sendOne_def caught_def eligible_def responded_def Let_def
      split: fetch_outcome.split sum.split)

lemma pushed_ineligible:
  "\<not> eligible c \<Longrightarrow>
   pushed e f c = \<lparr>SMSResult.mobile = or_else (client.mobile c) ''N/A'',
                   SMSResult.name = or_else (client.name c) ''Unknown'',
                   success = False,
                   error = Some ''Missing mobile number or QR code'',
                   messageId = None\<rparr>"
  by (auto simp add: pushed_def init_state_def sendOne_def eligible_def)

lemma pushed_eligible:
  "eligible c \<Longrightarrow>
   pushed e f c =
     (case f (params e c) of
        Rejected err \<Rightarrow>
          \<lparr>SMSResult.mobile = or_else (client.mobile c) ''N/A'',
           SMSResult.name = or_else (client.name c) ''Unknown'',
           success = False, error = Some (error_text err ''Unknown error''), messageId = None\<rparr>
      | Resolved ok txt \<Rightarrow>
          (case txt of
             Inl err \<Rightarrow>
               \<lparr>SMSResult.mobile = or_else (client.mobile c) ''N/A'',
                SMSResult.name = or_else (client.name c) ''Unknown'',
                success = False, error = Some (error_text err ''Unknown error''), messageId = None\<rparr>
           | Inr responseData \<Rightarrow>
               if ok then
                 \<lparr>SMSResult.mobile = String (client.mobile c),
                  SMSResult.name = or_else (client.name c) ''Unknown'',
                  success = True, error = None, messageId = Some ''sent''\<rparr>
               else
                 \<lparr>SMSResult.mobile = String (client.mobile c),
                  SMSResult.name = or_else (client.name c) ''Unknown'',
                  success = False,
                  error = Some (if responseData = [] then ''SMS sending failed'' else responseData),
                  messageId = None\<rparr>))"
  by (simp add: pushed_def init_state_def sendOne_def caught_def eligible_def Let_def
      split: fetch_outcome.split sum.split)

lemma sendAll_calls:
  "calls (rs_trace (sendAll e fetch i cs st)) = calls (rs_trace st) @ map (params e) (filter eligible cs)"
  by (induction cs arbitrary: i st) (simp_all add: sendOne_trace performed_cases calls_append)

lemma handler_trace:
  "snd (handler e fetch ''POST'' (Inr (Some clients)))
     = concat (map (\<lambda>i. performed e (fetch i) (clients ! i)) [0..<length clients])"
  by (simp add: handler_POST sendAll_trace init_state_def)

lemma delays_performed:
  "delays (performed e (fetch i) (clients ! i)) = (if answered e fetch clients i then [2000] else [])"
  by (simp add: performed_cases answered_def)

text \<open>
  C6. In the report of a run, whatever the gateway does: the entry of an ineligible
  recipient (no mobile number or no QR code) is a failure with the reason
  \<open>Missing mobile number or QR code\<close>; the entry of a recipient whose call got a
  non-success response is a failure with the response body as its error text (or
  \<open>SMS sending failed\<close> for an empty body); the entry of a recipient whose call threw is a
  failure with the message of the error; \<open>failureCount\<close> counts exactly the failed entries
  of the whole list; the gateway is called once for each eligible recipient of the whole
  list, in order, and for no other, so no failure stops the loop. On an empty list the
  report is all zeros and nothing is performed.
\<close>

theorem C6_failures_recorded_batch_goes_on:
  assumes run: "handler e fetch ''POST'' (Inr (Some clients)) = ((status, Bulk r), tr)"
  shows "length (results r) = length clients
    \<and> (\<forall>i < length clients. \<not> eligible (clients ! i) \<longrightarrow>
           results r ! i = \<lparr>SMSResult.mobile = or_else (client.mobile (clients ! i)) ''N/A'',
                             SMSResult.name = or_else (client.name (clients ! i)) ''Unknown'',
                             success = False,
                             error = Some ''Missing mobile number or QR code'',
                             messageId = None\<rparr>)
    \<and> (\<forall>i < length clients. \<forall>responseData. eligible (clients ! i) \<and>
           fetch i (params e (clients ! i)) = Resolved False (Inr responseData) \<longrightarrow>
           results r ! i = \<lparr>SMSResult.mobile = String (client.mobile (clients ! i)),
                             SMSResult.name = or_else (client.name (clients ! i)) ''Unknown'',
                             success = False,
                             error = Some (if responseData = [] then ''SMS sending failed''
                                           else responseData),
                             messageId = None\<rparr>)
    \<and> (\<forall>i < length clients. \<forall>err. eligible (clients ! i) \<and>
           (fetch i (params e (clients ! i)) = Rejected err
            \<or> (\<exists>ok. fetch i (params e (clients ! i)) = Resolved ok (Inl err))) \<longrightarrow>
           results r ! i = \<lparr>SMSResult.mobile = or_else (client.mobile (clients ! i)) ''N/A'',
                             SMSResult.name = or_else (client.name (clients ! i)) ''Unknown'',
                             success = False,
                             error = Some (error_text err ''Unknown error''),
                             messageId = None\<rparr>)
    \<and> failureCount r = length (filter (\<lambda>x. \<not> success x) (results r))
    \<and> calls tr = map (params e) (filter eligible clients)
    \<and> handler e fetch ''POST'' (Inr (Some [])) =
           ((200, Bulk \<lparr>totalClients = 0, successCount = 0, failureCount = 0, results = []\<rparr>), [])"
proof -
  from run have r: "results r = map (\<lambda>j. pushed e (fetch j) (clients ! j)) [0..<length clients]"
    and f: "failureCount r = rs_failureCount (sendAll e fetch 0 clients init_state)"
    and t: "tr = rs_trace (sendAll e fetch 0 clients init_state)"
    by (auto simp add: handler_POST sendAll_results init_state_def)
  have len: "length (results r) = length clients"
    by (simp add: r)
  have inel: "\<forall>i < length clients. \<not> eligible (clients ! i) \<longrightarrow>
           results r ! i = \<lparr>SMSResult.mobile = or_else (client.mobile (clients ! i)) ''N/A'',
                             SMSResult.name = or_else (client.name (clients ! i)) ''Unknown'',
                             success = False,
                             error = Some ''Missing mobile number or QR code'',
                             messageId = None\<rparr>"
    by (simp add: r pushed_ineligible)
  have refused: "\<forall>i < length clients. \<forall>responseData. eligible (clients ! i) \<and>
           fetch i (params e (clients ! i)) = Resolved False (Inr responseData) \<longrightarrow>
           results r ! i = \<lparr>SMSResult.mobile = String (client.mobile (clients ! i)),
                             SMSResult.name = or_else (client.name (clients ! i)) ''Unknown'',
                             success = False,
                             error = Some (if responseData = [] then ''SMS sending failed''
                                           else responseData),
                             messageId = None\<rparr>"
    by (simp add: r pushed_eligible)
  have threw: "\<forall>i < length clients. \<forall>err. eligible (clients ! i) \<and>
           (fetch i (params e (clients ! i)) = Rejected err
            \<or> (\<exists>ok. fetch i (params e (clients ! i)) = Resolved ok (Inl err))) \<longrightarrow>
           results r ! i = \<lparr>SMSResult.mobile = or_else (client.mobile (clients ! i)) ''N/A'',
                             SMSResult.name = or_else (client.name (clients ! i)) ''Unknown'',
                             success = False,
                             error = Some (error_text err ''Unknown error''),
                             messageId = None\<rparr>"
    by (auto simp add: r pushed_eligible)
  have count: "failureCount r = length (filter (\<lambda>x. \<not> success x) (results r))"
    by (simp add: f r sendAll_failure init_state_def)
  have gateway: "calls tr = map (params e) (filter eligible clients)"
    by (simp add: t sendAll_calls init_state_def)
  have empty: "handler e fetch ''POST'' (Inr (Some [])) =
           ((200, Bulk \<lparr>totalClients = 0, successCount = 0, failureCount = 0, results = []\<rparr>), [])"
    by (simp add: handler_def)
  from len inel refused threw count gateway empty show ?thesis
    by (intro conjI)
qed

lemma flaky_run:
  "handler demo_env gateway_flaky ''POST'' (Inr (Some [ann, bob, cyd]))
     = ((200, Bulk flaky_report), flaky_trace)"
  by (simp add: handler_def sendOne_def caught_def Let_def flaky_report_def flaky_trace_def
      truthy_def ann_def bob_def cyd_def gateway_flaky_def or_else_def String_def error_text_def)

theorem C6_failures_recorded_batch_goes_on_witness:
  "handler demo_env gateway_flaky ''POST'' (Inr (Some [ann, bob, cyd]))
     = ((200, Bulk flaky_report), flaky_trace)
   \<and> length (results flaky_report) = length [ann, bob, cyd]
   \<and> failureCount flaky_report = length (filter (\<lambda>x. \<not> success x) (results flaky_report))
   \<and> calls flaky_trace = map (params demo_env) (filter eligible [ann, bob, cyd])"
  using flaky_run C6_failures_recorded_batch_goes_on [OF flaky_run]
  by blast

section \<open>The wait between sends\<close>

text \<open>
  C5, as the handler has it. The effects of a run are, recipient by recipient: nothing for
  an ineligible recipient; the call alone when the call threw; the call followed by the
  wait of 2000 ms when the call got a response, successful or not. So there are as many
  waits as answered calls, each of 2000 ms, and when the call for the last recipient is
  answered the run ends with the wait that follows it. In a run of three recipients of
  which only the second is ineligible and both calls are answered, the wait happens twice:
  after the first and after the third recipient.
\<close>

theorem C5_delay_after_every_answered_call:
  "snd (handler e fetch ''POST'' (Inr (Some clients)))
     = concat (map (\<lambda>i. if \<not> eligible (clients ! i) then []
                        else if responded (fetch i (params e (clients ! i)))
                          then [Fetch (params e (clients ! i)), Delay 2000]
                          else [Fetch (params e (clients ! i))])
                   [0..<length clients])
   \<and> delays (snd (handler e fetch ''POST'' (Inr (Some clients))))
       = replicate (length (filter (answered e fetch clients) [0..<length clients])) 2000
   \<and> (clients \<noteq> [] \<and> answered e fetch clients (length clients - 1) \<longrightarrow>
        (\<exists>before. snd (handler e fetch ''POST'' (Inr (Some clients)))
                    = before @ [Fetch (params e (last clients)), Delay 2000]))
   \<and> (eligible c1 \<and> \<not> eligible c2 \<and> eligible c3
        \<and> responded (fetch 0 (params e c1)) \<and> responded (fetch 2 (params e c3)) \<longrightarrow>
        snd (handler e fetch ''POST'' (Inr (Some [c1, c2, c3])))
          = [Fetch (params e c1), Delay 2000, Fetch (params e c3), Delay 2000])"
proof -
  let ?tr = "snd (handler e fetch ''POST'' (Inr (Some clients)))"
  have shape: "?tr = concat (map (\<lambda>i. if \<not> eligible (clients ! i) then []
                        else if responded (fetch i (params e (clients ! i)))
                          then [Fetch (params e (clients ! i)), Delay 2000]
                          else [Fetch (params e (clients ! i))])
                   [0..<length clients])"
    unfolding handler_trace by (simp add: performed_cases)
  have count: "delays ?tr
       = replicate (length (filter (answered e fetch clients) [0..<length clients])) 2000"
    unfolding handler_trace
    by (simp add: delays_concat o_def delays_performed concat_if_replicate)
  have final: "\<exists>before. ?tr = before @ [Fetch (params e (last clients)), Delay 2000]"
    if ne: "clients \<noteq> []" and ans: "answered e fetch clients (length clients - 1)"
  proof -
    from ne obtain n where n: "length clients = Suc n"
      by (cases clients) simp_all
    from ne n have l: "last clients = clients ! n"
      by (simp add: last_conv_nth)
    from ans n have "performed e (fetch n) (clients ! n) = [Fetch (params e (clients ! n)), Delay 2000]"
      by (simp add: performed_cases answered_def)
    then show ?thesis
      unfolding handler_trace by (simp add: n l)
  qed
  have three: "snd (handler e fetch ''POST'' (Inr (Some [c1, c2, c3])))
          = [Fetch (params e c1), Delay 2000, Fetch (params e c3), Delay 2000]"
    if "eligible c1" "\<not> eligible c2" "eligible c3"
       "responded (fetch 0 (params e c1))" "responded (fetch 2 (params e c3))"
    using that unfolding handler_trace
    by (simp add: performed_cases upt_rec [of 0] upt_rec [of 1] upt_rec [of 2] numeral_3_eq_3
        numeral_2_eq_2)
  from shape count final three show ?thesis
    by blast
qed

lemma demo_eligible: "eligible ann \<and> \<not> eligible bob \<and> eligible cyd"
  by (simp add: eligible_def truthy_def ann_def bob_def cyd_def)

theorem C5_delay_after_every_answered_call_witness:
  "[ann, bob, cyd] \<noteq> [] \<and> answered demo_env gateway_ok [ann, bob, cyd] (length [ann, bob, cyd] - 1)
   \<and> eligible ann \<and> \<not> eligible bob \<and> eligible cyd
   \<and> responded (gateway_ok 0 (params demo_env ann)) \<and> responded (gateway_ok 2 (params demo_env cyd))
   \<and> delays (snd (handler demo_env gateway_ok ''POST'' (Inr (Some [ann, bob, cyd])))) = [2000, 2000]
   \<and> (\<exists>before. snd (handler demo_env gateway_ok ''POST'' (Inr (Some [ann, bob, cyd])))
                 = before @ [Fetch (params demo_env cyd), Delay 2000])"
  using C5_delay_after_every_answered_call [of demo_env gateway_ok "[ann, bob, cyd]" ann bob cyd]
    demo_eligible
  by (simp add: answered_def responded_def gateway_ok_def)

text \<open>
  The claim as stated has the wait never applied after the last recipient. In the run of
  the three recipients against a gateway that answers every call, the last effect is the
  wait after the call for the last recipient.
\<close>

theorem C5_no_delay_after_last_counterexample:
  "snd (handler demo_env gateway_ok ''POST'' (Inr (Some [ann, bob, cyd])))
     = [Fetch (params demo_env ann), Delay 2000, Fetch (params demo_env cyd), Delay 2000]"
  by (simp add: handler_trace performed_cases upt_rec [of 0] upt_rec [of 1] upt_rec [of 2]
      numeral_3_eq_3 eligible_def truthy_def ann_def bob_def cyd_def responded_def gateway_ok_def)

section \<open>Calendar order and day numbers\<close>

text \<open>
  The order of the date texts is a strict total order, and on dates of the calendar it is
  the order of their day numbers, hence of their times: a later date has a later midnight.
\<close>

lemma date_less_irrefl: "\<not> date_less a a"
  by (simp add: date_less_def)


lemma date_less_total: "date_less a b \<or> a = b \<or> date_less b a"
  by (cases a, cases b) (auto simp add: date_less_def)

lemma days_from_civil_split:
  "days_from_civil d = year_days (march_year d) + month_start (march_month d) + int (day d) - 1 - 719468"
  by (simp add: days_from_civil_def year_days_def march_year_def march_month_def month_start_def Let_def)

lemma div_step:
  fixes n k :: int
  assumes k: "0 < k"
  shows "n div k = (n - 1) div k + (if n mod k = 0 then 1 else 0)"
proof (cases "n mod k = 0")
  case True
  have "n = k * (n div k) + n mod k" by simp
  with True have "n - 1 = k * (n div k - 1) + (k - 1)" by (simp add: algebra_simps)
  then have "(n - 1) div k = n div k - 1"
    by (rule int_div_pos_eq) (use k in simp_all)
  with True show ?thesis by simp
next
  case False
  have "0 \<le> n mod k" using k by simp
  with False have pos: "0 \<le> n mod k - 1" by simp
  have "n mod k < k" using k by (rule pos_mod_bound)
  then have lt: "n mod k - 1 < k" by simp
  have "n = k * (n div k) + n mod k" by simp
  then have "n - 1 = k * (n div k) + (n mod k - 1)" by simp
  then have "(n - 1) div k = n div k"
    using pos lt by (rule int_div_pos_eq)
  with False show ?thesis by simp
qed

lemma mod_100_4: "(n::int) mod 100 = 0 \<Longrightarrow> n mod 4 = 0"
  using mod_mod_cancel [of 4 100 n] by simp

lemma mod_400_100: "(n::int) mod 400 = 0 \<Longrightarrow> n mod 100 = 0"
  using mod_mod_cancel [of 100 400 n] by simp

text \<open>A year has 365 days, and one more when the year it ends in (in February) is a leap year.\<close>

lemma year_days_step: "year_days (y + 1) = year_days y + 365 + leap_day (y + 1)"
proof -
  have a: "(y + 1) div 4 = y div 4 + (if (y + 1) mod 4 = 0 then 1 else 0)"
    using div_step [of 4 "y + 1"] by simp
  have b: "(y + 1) div 100 = y div 100 + (if (y + 1) mod 100 = 0 then 1 else 0)"
    using div_step [of 100 "y + 1"] by simp
  have c: "(y + 1) div 400 = y div 400 + (if (y + 1) mod 400 = 0 then 1 else 0)"
    using div_step [of 400 "y + 1"] by simp
  have d: "(y + 1) mod 100 = 0 \<Longrightarrow> (y + 1) mod 4 = 0" by (rule mod_100_4)
  have e: "(y + 1) mod 400 = 0 \<Longrightarrow> (y + 1) mod 100 = 0" by (rule mod_400_100)
  consider "(y + 1) mod 4 \<noteq> 0" | "(y + 1) mod 4 = 0" "(y + 1) mod 100 \<noteq> 0"
    | "(y + 1) mod 100 = 0" "(y + 1) mod 400 \<noteq> 0" | "(y + 1) mod 400 = 0"
    by argo
  then show ?thesis
  proof cases
    case 1
    with d e have "(y + 1) mod 100 \<noteq> 0" "(y + 1) mod 400 \<noteq> 0" by auto
    with 1 show ?thesis unfolding year_days_def leap_day_def a b c by simp
  next
    case 2
    with e have "(y + 1) mod 400 \<noteq> 0" by auto
    with 2 show ?thesis unfolding year_days_def leap_day_def a b c by simp
  next
    case 3
    with d have "(y + 1) mod 4 = 0" by auto
    with 3 show ?thesis unfolding year_days_def leap_day_def a b c by simp
  next
    case 4
    with d e have "(y + 1) mod 4 = 0" "(y + 1) mod 100 = 0" by auto
    with 4 show ?thesis unfolding year_days_def leap_day_def a b c by simp
  qed
qed

lemma leap_day_range: "0 \<le> leap_day n" "leap_day n \<le> 1"
  by (simp_all add: leap_day_def)

lemma year_days_mono: "y1 \<le> y2 \<Longrightarrow> year_days y1 \<le> year_days y2"
proof (induction y2 rule: int_ge_induct)
  case base
  show ?case by simp
next
  case (step i)
  have "year_days i \<le> year_days (i + 1)"
    using year_days_step [of i] leap_day_range [of "i + 1"] by simp
  with step.IH show ?case by simp
qed

lemma year_days_next: "y1 < y2 \<Longrightarrow> year_days y1 + 365 + leap_day (y1 + 1) \<le> year_days y2"
  using year_days_mono [of "y1 + 1" y2] year_days_step [of y1] by simp

lemma leap_day_int: "leap_day (int y) = (if is_leap y then 1 else 0)"
proof -
  have "int y mod 4 = int (y mod 4)" "int y mod 100 = int (y mod 100)" "int y mod 400 = int (y mod 400)"
    by (simp_all add: zmod_int)
  then show ?thesis
    by (simp add: leap_day_def is_leap_def)
qed

lemma month_cases:
  assumes "valid_date a"
  obtains "month a = 1" | "month a = 2" | "month a = 3" | "month a = 4" | "month a = 5"
    | "month a = 6" | "month a = 7" | "month a = 8" | "month a = 9" | "month a = 10"
    | "month a = 11" | "month a = 12"
proof -
  from assms have "1 \<le> month a" "month a \<le> 12" by (simp_all add: valid_date_def)
  then have "month a = 1 \<or> month a = 2 \<or> month a = 3 \<or> month a = 4 \<or> month a = 5
    \<or> month a = 6 \<or> month a = 7 \<or> month a = 8 \<or> month a = 9 \<or> month a = 10
    \<or> month a = 11 \<or> month a = 12" by arith
  then show ?thesis using that by blast
qed

lemma month_start_mono: "x \<le> y \<Longrightarrow> month_start x \<le> month_start y"
  unfolding month_start_def by (intro zdiv_mono1) simp_all

text \<open>
  Within a year that begins in March, every day of a month comes before the start of the
  next month, and every day of the year before the start of the next year.
\<close>

lemma month_fits_next:
  assumes v: "valid_date a"
  shows "march_month a = 11
    \<or> month_start (march_month a) + int (day a) \<le> month_start (march_month a + 1)"
proof -
  from v have d: "day a \<le> days_in_month (year a) (month a)" by (simp add: valid_date_def)
  from v show ?thesis
    by (cases rule: month_cases)
      (use d in \<open>simp_all add: march_month_def month_start_def days_in_month_def\<close>)
qed

lemma month_fits:
  assumes v: "valid_date a" and less: "march_month a < march_month b"
  shows "month_start (march_month a) + int (day a) \<le> month_start (march_month b)"
proof -
  have "march_month b < 12" by (simp add: march_month_def)
  with less have "march_month a \<noteq> 11" by simp
  with month_fits_next [OF v]
  have "month_start (march_month a) + int (day a) \<le> month_start (march_month a + 1)" by simp
  also from less have "\<dots> \<le> month_start (march_month b)" by (intro month_start_mono) simp
  finally show ?thesis .
qed

lemma year_fits:
  assumes v: "valid_date a"
  shows "month_start (march_month a) + int (day a) - 1 < 365 + leap_day (march_year a + 1)"
proof -
  from v have d: "day a \<le> days_in_month (year a) (month a)" by (simp add: valid_date_def)
  from v show ?thesis
    by (cases rule: month_cases)
      (use d leap_day_range [of "march_year a + 1"] leap_day_int [of "year a"] in
        \<open>simp_all add: march_month_def march_year_def month_start_def days_in_month_def
           split: if_splits\<close>)
qed

lemma march_order:
  assumes va: "valid_date a" and vb: "valid_date b" and less: "date_less a b"
  shows "march_year a < march_year b
    \<or> (march_year a = march_year b \<and> march_month a < march_month b)
    \<or> (march_year a = march_year b \<and> march_month a = march_month b \<and> day a < day b)"
proof -
  from va have ma: "1 \<le> month a" "month a \<le> 12" by (simp_all add: valid_date_def)
  from vb have mb: "1 \<le> month b" "month b \<le> 12" by (simp_all add: valid_date_def)
  have mpa: "march_month a = (if month a \<le> 2 then int (month a) + 9 else int (month a) - 3)"
    using ma by (simp add: march_month_def) presburger
  have mpb: "march_month b = (if month b \<le> 2 then int (month b) + 9 else int (month b) - 3)"
    using mb by (simp add: march_month_def) presburger
  from less ma mb show ?thesis
    unfolding mpa mpb march_year_def date_less_def
    by (auto split: if_splits)
qed

lemma month_start_nonneg: "0 \<le> month_start (march_month a)"
proof -
  have "0 \<le> march_month a" by (simp add: march_month_def)
  then have "month_start 0 \<le> month_start (march_month a)" by (rule month_start_mono)
  then show ?thesis by (simp add: month_start_def)
qed

lemma days_from_civil_mono:
  assumes va: "valid_date a" and vb: "valid_date b" and less: "date_less a b"
  shows "days_from_civil a < days_from_civil b"
proof -
  from vb have db: "1 \<le> day b" by (simp add: valid_date_def)
  from march_order [OF va vb less] consider
    (year) "march_year a < march_year b"
    | (month) "march_year a = march_year b" "march_month a < march_month b"
    | (day) "march_year a = march_year b" "march_month a = march_month b" "day a < day b"
    by blast
  then show ?thesis
  proof cases
    case year
    then have "year_days (march_year a) + 365 + leap_day (march_year a + 1) \<le> year_days (march_year b)"
      by (rule year_days_next)
    with year_fits [OF va] month_start_nonneg [of b] db show ?thesis
      unfolding days_from_civil_split by linarith
  next
    case month
    from month_fits [OF va month(2)] db show ?thesis
      unfolding days_from_civil_split month(1) by linarith
  next
    case day
    then show ?thesis
      unfolding days_from_civil_split by simp
  qed
qed

lemma days_from_civil_le:
  assumes "valid_date a" "valid_date b"
  shows "days_from_civil a \<le> days_from_civil b \<longleftrightarrow> date_le a b"
proof
  assume le: "days_from_civil a \<le> days_from_civil b"
  have "\<not> date_less b a"
  proof
    assume "date_less b a"
    with assms have "days_from_civil b < days_from_civil a" by (simp add: days_from_civil_mono)
    with le show False by simp
  qed
  with date_less_total [of a b] show "date_le a b" by (auto simp add: date_le_def)
next
  assume "date_le a b"
  then consider "date_less a b" | "a = b" by (auto simp add: date_le_def)
  then show "days_from_civil a \<le> days_from_civil b"
  proof cases
    case 1
    with assms have "days_from_civil a < days_from_civil b" by (simp add: days_from_civil_mono)
    then show ?thesis by simp
  next
    case 2
    then show ?thesis by simp
  qed
qed

lemma getTime_le:
  assumes "valid_date a" "valid_date b"
  shows "getTime a \<le> getTime b \<longleftrightarrow> date_le a b"
  using days_from_civil_le [OF assms] by (simp add: getTime_def msPerDay_def)

section \<open>Generated due dates\<close>

lemma div_mod_lex:
  fixes a b :: nat
  assumes "a < b"
  shows "a div 12 < b div 12 \<or> (a div 12 = b div 12 \<and> a mod 12 < b mod 12)"
proof (cases "a div 12 = b div 12")
  case True
  have "a = 12 * (a div 12) + a mod 12" by simp
  moreover have "b = 12 * (b div 12) + b mod 12" by simp
  ultimately have "a mod 12 < b mod 12" using assms True by linarith
  with True show ?thesis by simp
next
  case False
  from assms have "a div 12 \<le> b div 12" by (simp add: div_le_mono)
  with False show ?thesis by simp
qed

lemma add_months_less:
  assumes "j < k"
  shows "date_less (add_months j d) (add_months k d)"
  using div_mod_lex [of "year d * 12 + (month d - 1) + j" "year d * 12 + (month d - 1) + k"] assms
  by (auto simp add: date_less_def add_months_def Let_def)

lemma add_months_valid: "valid_date d \<Longrightarrow> valid_date (add_months k d)"
proof -
  have "(year d * 12 + (month d - 1) + k) mod 12 + 1 \<le> 12"
    using mod_less_divisor [of 12 "year d * 12 + (month d - 1) + k"] by linarith
  moreover have "1 \<le> days_in_month y m" for y m
    by (simp add: days_in_month_def)
  ultimately show "valid_date d \<Longrightarrow> valid_date (add_months k d)"
    by (simp add: valid_date_def add_months_def Let_def)
qed

lemma add_months_month_index:
  "1 \<le> month d \<Longrightarrow> month d \<le> 12 \<Longrightarrow>
   year (add_months k d) * 12 + (month (add_months k d) - 1) = year d * 12 + (month d - 1) + k"
  by (simp add: add_months_def Let_def)

lemma add_months_day:
  "day (add_months k d) = min (day d) (days_in_month (year (add_months k d)) (month (add_months k d)))"
  by (simp add: add_months_def Let_def)

lemma generated_days_increase:
  assumes "valid_date d"
  shows "days_from_civil (add_months 3 d) < days_from_civil (add_months 4 d)
    \<and> days_from_civil (add_months 4 d) < days_from_civil (add_months 6 d)"
  using assms add_months_valid [of d] add_months_less [of 3 4 d] add_months_less [of 4 6 d]
  by (simp add: days_from_civil_mono)

lemma cleaned_days:
  "days_from_civil \<lparr>year = 2023, month = 11, day = 15\<rparr> = 19676"
  "days_from_civil \<lparr>year = 2024, month = 2, day = 15\<rparr> = 19768"
  "days_from_civil \<lparr>year = 2024, month = 3, day = 15\<rparr> = 19797"
  "days_from_civil \<lparr>year = 2024, month = 5, day = 15\<rparr> = 19858"
  by (simp_all add: days_from_civil_def)

text \<open>
  C9. Without a last cleaning date the three generated due dates are null. With one, they
  are that date plus 3, 4 and 6 calendar months: the count of months since year 0 grows by
  exactly 3, 4 and 6, the day of the month is kept unless the target month is shorter, and
  the result is a date of the calendar. The three are in calendar order, and so are their
  day numbers.
\<close>

theorem C9_generated_due_dates:
  "due_3_months_generated None = None \<and> due_4_months_generated None = None
   \<and> due_6_months_generated None = None
   \<and> due_3_months_generated (Some d) = Some (add_months 3 d)
   \<and> due_4_months_generated (Some d) = Some (add_months 4 d)
   \<and> due_6_months_generated (Some d) = Some (add_months 6 d)
   \<and> (valid_date d \<longrightarrow>
        valid_date (add_months k d)
        \<and> year (add_months k d) * 12 + (month (add_months k d) - 1) = year d * 12 + (month d - 1) + k
        \<and> day (add_months k d)
            = min (day d) (days_in_month (year (add_months k d)) (month (add_months k d))))
   \<and> date_le (add_months 3 d) (add_months 4 d)
   \<and> date_le (add_months 4 d) (add_months 6 d)
   \<and> (valid_date d \<longrightarrow>
        days_from_civil (add_months 3 d) < days_from_civil (add_months 4 d)
        \<and> days_from_civil (add_months 4 d) < days_from_civil (add_months 6 d))"
proof -
  have nulls: "due_3_months_generated None = None \<and> due_4_months_generated None = None
      \<and> due_6_months_generated None = None"
    by (simp add: due_3_months_generated_def due_4_months_generated_def due_6_months_generated_def)
  have somes: "due_3_months_generated (Some d) = Some (add_months 3 d)
      \<and> due_4_months_generated (Some d) = Some (add_months 4 d)
      \<and> due_6_months_generated (Some d) = Some (add_months 6 d)"
    by (simp add: due_3_months_generated_def due_4_months_generated_def due_6_months_generated_def)
  have months: "valid_date (add_months k d)
        \<and> year (add_months k d) * 12 + (month (add_months k d) - 1) = year d * 12 + (month d - 1) + k
        \<and> day (add_months k d)
            = min (day d) (days_in_month (year (add_months k d)) (month (add_months k d)))"
    if "valid_date d"
    using that add_months_valid [of d k] add_months_month_index [of d k] add_months_day [of k d]
    by (simp add: valid_date_def)
  have order: "date_le (add_months 3 d) (add_months 4 d) \<and> date_le (add_months 4 d) (add_months 6 d)"
    using add_months_less [of 3 4 d] add_months_less [of 4 6 d]
    by (simp add: date_le_def)
  from nulls somes months order generated_days_increase [of d] show ?thesis
    by blast
qed

theorem C9_generated_due_dates_witness:
  "valid_date cleaned
   \<and> due_3_months_generated (Some cleaned) = Some \<lparr>year = 2024, month = 2, day = 15\<rparr>
   \<and> due_4_months_generated (Some cleaned) = Some \<lparr>year = 2024, month = 3, day = 15\<rparr>
   \<and> due_6_months_generated (Some cleaned) = Some \<lparr>year = 2024, month = 5, day = 15\<rparr>
   \<and> valid_date (add_months 3 cleaned)
   \<and> date_le (add_months 3 cleaned) (add_months 4 cleaned)
   \<and> date_le (add_months 4 cleaned) (add_months 6 cleaned)
   \<and> days_from_civil (add_months 3 cleaned) - days_from_civil cleaned = 92
   \<and> days_from_civil (add_months 3 (add_months 3 cleaned)) - days_from_civil (add_months 3 cleaned) = 90
   \<and> due_3_months_generated (Some \<lparr>year = 2023, month = 11, day = 30\<rparr>)
       = Some \<lparr>year = 2024, month = 2, day = 29\<rparr>"
proof -
  have v: "valid_date cleaned"
    by (simp add: valid_date_def cleaned_def days_in_month_def)
  have e: "add_months 3 \<lparr>year = 2023, month = 11, day = 30\<rparr> = \<lparr>year = 2024, month = 2, day = 29\<rparr>"
    by (simp add: add_months_def days_in_month_def is_leap_def Let_def)
  have a: "add_months 3 cleaned = \<lparr>year = 2024, month = 2, day = 15\<rparr>"
    "add_months 4 cleaned = \<lparr>year = 2024, month = 3, day = 15\<rparr>"
    "add_months 6 cleaned = \<lparr>year = 2024, month = 5, day = 15\<rparr>"
    "add_months 3 \<lparr>year = 2024, month = 2, day = 15\<rparr> = \<lparr>year = 2024, month = 5, day = 15\<rparr>"
    by (simp_all add: add_months_def cleaned_def days_in_month_def Let_def)
  have c: "days_from_civil cleaned = 19676"
    by (simp add: cleaned_def cleaned_days)
  from v C9_generated_due_dates [of cleaned 3]
    C9_generated_due_dates [of "\<lparr>year = 2023, month = 11, day = 30\<rparr>" 3]
  show ?thesis
    by (simp add: a c e cleaned_days)
qed

section \<open>Device status\<close>

text \<open>
  C4. A device with a repair date is \<open>repair\<close>, whatever its due dates and whatever the
  instant.
\<close>

theorem C4_repair_overrides:
  "last_repair_date device \<noteq> None \<Longrightarrow> getDeviceStatus now device = ''repair''"
  by (simp add: getDeviceStatus_def)

theorem C4_repair_overrides_witness:
  "last_repair_date repaired_device \<noteq> None
   \<and> due_6_months repaired_device = Some \<lparr>year = 2001, month = 9, day = 4\<rparr>
   \<and> getDeviceStatus afternoon_due_day repaired_device = ''repair''"
  using C4_repair_overrides [of repaired_device afternoon_due_day]
  by (simp add: repaired_device_def device_row_def due_6_months_generated_def add_months_def
      days_in_month_def Let_def)

lemma dueDates_of_empty:
  "dueDates_of device = [] \<longleftrightarrow>
     due_3_months device = None \<and> due_4_months device = None \<and> due_6_months device = None"
  by (auto simp add: dueDates_of_def split: option.splits)

text \<open>The head of a list sorted on a key has the least key.\<close>

lemma hd_sort_key_Min:
  assumes "xs \<noteq> []"
  shows "f (hd (sort_key f xs)) = Min (f ` set xs)"
proof -
  let ?ys = "sort_key f xs"
  from assms have ne: "?ys \<noteq> []" by (metis length_sort length_0_conv)
  then obtain y ys where ys: "?ys = y # ys" by (cases ?ys) auto
  have srt: "sorted (map f ?ys)" by (rule sorted_sort_key)
  have st: "set ?ys = set xs" by simp
  have "Min (f ` set ?ys) = f y"
  proof (rule Min_eqI)
    show "finite (f ` set ?ys)" by simp
    show "f y \<in> f ` set ?ys" by (simp add: ys)
    fix z assume "z \<in> f ` set ?ys"
    with srt show "f y \<le> z" by (auto simp add: ys)
  qed
  then show ?thesis by (simp add: ys st [symmetric] del: set_sort)
qed

lemma nearest_is_calendar_least:
  assumes v: "\<forall>d \<in> set ds. valid_date d" and ne: "ds \<noteq> []"
  shows "\<exists>n \<in> set ds. getTime n = Min (getTime ` set ds) \<and> (\<forall>d \<in> set ds. date_le n d)"
proof -
  from ne have "Min (getTime ` set ds) \<in> getTime ` set ds" by (intro Min_in) simp_all
  then obtain n where n: "n \<in> set ds" and m: "getTime n = Min (getTime ` set ds)" by auto
  have "date_le n d" if d: "d \<in> set ds" for d
  proof -
    from d have "Min (getTime ` set ds) \<le> getTime d" by simp
    with m have "getTime n \<le> getTime d" by simp
    with v n d show ?thesis using getTime_le by blast
  qed
  with n m show ?thesis by blast
qed

text \<open>
  C3, as the function has it. For a device without a repair date: with no non-null due
  date the status is \<open>scheduled\<close>, and so it is for the row of a device that was never
  cleaned; otherwise the status is \<open>due\<close> when the earliest due date, taken as the instant
  of its midnight UTC, is strictly before the instant \<open>now\<close>, time of day included, and
  \<open>maintain\<close> if not. The earliest time is that of the due date that is least in the
  calendar.
\<close>

theorem C3_classify_without_repair:
  assumes "last_repair_date device = None"
  shows "getDeviceStatus now device =
           (if dueDates_of device = [] then ''scheduled''
            else if Min (getTime ` set (dueDates_of device)) < now then ''due''
            else ''maintain'')
         \<and> getDeviceStatus now (device_row None None) = ''scheduled''
         \<and> (dueDates_of device \<noteq> [] \<and> (\<forall>d \<in> set (dueDates_of device). valid_date d) \<longrightarrow>
              (\<exists>n \<in> set (dueDates_of device).
                 getTime n = Min (getTime ` set (dueDates_of device))
                 \<and> (\<forall>d \<in> set (dueDates_of device). date_le n d)))"
proof -
  have a: "getDeviceStatus now device =
           (if dueDates_of device = [] then ''scheduled''
            else if Min (getTime ` set (dueDates_of device)) < now then ''due''
            else ''maintain'')"
  proof (cases "dueDates_of device = []")
    case True
    with assms show ?thesis
      by (simp add: getDeviceStatus_def dueDates_of_empty)
  next
    case False
    then have ne: "sort_key getTime (dueDates_of device) \<noteq> []"
      by (metis length_sort length_0_conv)
    from False have m: "getTime (hd (sort_key getTime (dueDates_of device)))
        = Min (getTime ` set (dueDates_of device))"
      by (rule hd_sort_key_Min)
    from False have some: "due_3_months device \<noteq> None \<or> due_4_months device \<noteq> None
        \<or> due_6_months device \<noteq> None"
      by (simp add: dueDates_of_empty)
    from ne obtain y ys where ys: "sort_key getTime (dueDates_of device) = y # ys"
      by (cases "sort_key getTime (dueDates_of device)") auto
    with m have "getTime y = Min (getTime ` set (dueDates_of device))" by simp
    with assms some False ys show ?thesis
      unfolding getDeviceStatus_def dueDates_of_def [symmetric]
      by (simp add: Let_def)
  qed
  have b: "getDeviceStatus now (device_row None None) = ''scheduled''"
    by (simp add: getDeviceStatus_def device_row_def due_3_months_generated_def
        due_4_months_generated_def due_6_months_generated_def)
  from a b nearest_is_calendar_least [of "dueDates_of device"] show ?thesis
    by blast
qed

lemma cleaned_row:
  "device_row (Some cleaned) None =
     \<lparr>last_cleaning_date = Some \<lparr>year = 2023, month = 11, day = 15\<rparr>,
      due_3_months = Some \<lparr>year = 2024, month = 2, day = 15\<rparr>,
      due_4_months = Some \<lparr>year = 2024, month = 3, day = 15\<rparr>,
      due_6_months = Some \<lparr>year = 2024, month = 5, day = 15\<rparr>,
      last_repair_date = None\<rparr>"
  by (simp add: device_row_def due_3_months_generated_def due_4_months_generated_def
      due_6_months_generated_def add_months_def cleaned_def days_in_month_def Let_def)

lemma cleaned_times:
  "getTime \<lparr>year = 2024, month = 2, day = 15\<rparr> = 1707955200000"
  "getTime \<lparr>year = 2024, month = 3, day = 15\<rparr> = 1710460800000"
  "getTime \<lparr>year = 2024, month = 5, day = 15\<rparr> = 1715731200000"
  by (simp_all add: getTime_def cleaned_days msPerDay_def)

lemma cleaned_noon_before:
  "getDeviceStatus noon_before (device_row (Some cleaned) None) = ''maintain''"
  unfolding cleaned_row
  by (simp add: getDeviceStatus_def cleaned_times noon_before_def)

lemma cleaned_afternoon:
  "getDeviceStatus afternoon_due_day (device_row (Some cleaned) None) = ''due''"
  unfolding cleaned_row
  by (simp add: getDeviceStatus_def cleaned_times afternoon_due_day_def)

lemma cleaned_afternoon_date_only:
  "classify_date_only afternoon_due_day (device_row (Some cleaned) None) = ''maintain''"
  unfolding cleaned_row
  by (simp add: classify_date_only_def dueDates_of_def cleaned_days afternoon_due_day_def
      msPerDay_def)

theorem C3_classify_without_repair_witness:
  "last_repair_date (device_row (Some cleaned) None) = None
   \<and> getDeviceStatus noon_before (device_row (Some cleaned) None) = ''maintain''
   \<and> getDeviceStatus noon_before (device_row None None) = ''scheduled''"
  using C3_classify_without_repair [of "device_row (Some cleaned) None" noon_before]
    cleaned_noon_before
  by (simp add: cleaned_row)

text \<open>
  The claim as stated compares dates only. On the afternoon of the day the nearest due date
  falls on, that date is not before the day of \<open>now\<close>, yet the function answers \<open>due\<close>.
\<close>

theorem C3_date_only_counterexample:
  "last_repair_date (device_row (Some cleaned) None) = None
   \<and> getDeviceStatus afternoon_due_day (device_row (Some cleaned) None) = ''due''
   \<and> classify_date_only afternoon_due_day (device_row (Some cleaned) None) = ''maintain''"
  using cleaned_afternoon cleaned_afternoon_date_only
  by (simp add: cleaned_row)

section \<open>Due-soon groups\<close>






lemma feb_less: "date_less feb01 feb10" "\<not> date_less feb10 feb01" "\<not> date_less mar05 feb10"
  by (simp_all add: date_less_def feb01_def feb10_def mar05_def)







section \<open>The group key\<close>

text \<open>
  Joining with a hyphen tells two pairs of names apart as long as the client names hold
  no hyphen; equal pairs always give equal keys.
\<close>

lemma hyphen_join_inject:
  assumes "CHR ''-'' \<notin> set a" "CHR ''-'' \<notin> set c" "a @ ''-'' @ b = c @ ''-'' @ d"
  shows "a = c \<and> b = d"
  using assms
proof (induction a arbitrary: c)
  case Nil
  then show ?case by (cases c) auto
next
  case (Cons x a)
  then show ?case by (cases c) auto
qed

lemma key_inject:
  assumes "CHR ''-'' \<notin> set (DeviceDueSoon.client_name x)" "CHR ''-'' \<notin> set (DeviceDueSoon.client_name y)"
  shows "key x = key y \<longleftrightarrow>
    DeviceDueSoon.client_name x = DeviceDueSoon.client_name y
    \<and> DeviceDueSoon.location_name x = DeviceDueSoon.location_name y"
  using assms hyphen_join_inject [of "DeviceDueSoon.client_name x" "DeviceDueSoon.client_name y"
      "DeviceDueSoon.location_name x" "DeviceDueSoon.location_name y"]
  by (auto simp add: key_def)

lemma clientKey_inject:
  assumes "CHR ''-'' \<notin> set (DeviceOverdue.client_name x)" "CHR ''-'' \<notin> set (DeviceOverdue.client_name y)"
  shows "clientKey x = clientKey y \<longleftrightarrow>
    DeviceOverdue.client_name x = DeviceOverdue.client_name y
    \<and> DeviceOverdue.location_name x = DeviceOverdue.location_name y"
  using assms hyphen_join_inject [of "DeviceOverdue.client_name x" "DeviceOverdue.client_name y"
      "DeviceOverdue.location_name x" "DeviceOverdue.location_name y"]
  by (auto simp add: clientKey_def)

text \<open>
  C7 at two records whose client and location names differ but whose keys, the names
  joined by a hyphen, are both \<open>A-B-C\<close>: each grouping puts them in one group, under the
  names of the first.
\<close>

theorem C7_hyphen_merges_groups:
  "groupedClients [due_soon ''AC 1'' ''A-B'' ''C'' feb01, due_soon ''AC 2'' ''A'' ''B-C'' feb10]
     = [\<lparr>clientName = ''A-B'', locationName = ''C'',
         devices = [due_soon ''AC 1'' ''A-B'' ''C'' feb01, due_soon ''AC 2'' ''A'' ''B-C'' feb10],
         earliestDueDate = feb01, totalDevices = 2\<rparr>]
   \<and> clientGroups ticking_clock [overdue ''d1'' ''AC 1'' ''A-B'' ''C'' ''due_3_months'' feb01,
                          overdue ''d2'' ''AC 2'' ''A'' ''B-C'' ''due_3_months'' feb10]
     = [\<lparr>client_group.client_name = ''A-B'', client_group.location_name = ''C'',
         client_group.devices = [overdue ''d1'' ''AC 1'' ''A-B'' ''C'' ''due_3_months'' feb01,
                    overdue ''d2'' ''AC 2'' ''A'' ''B-C'' ''due_3_months'' feb10]\<rparr>]"
  using feb_less
  by (simp add: groupedClients_def clientMap_of_def forEach_body_def key_def Let_def due_soon_def
      date_less_irrefl clientGroups_def groupedDevices_def reducer_def clientKey_def deviceKey_def
      overdue_def)

section \<open>The most urgent obligation of each device\<close>

text \<open>
  With due dates at midnight UTC, the days overdue at an instant are the day count of the
  instant, rounded up, less the day number of the due date: whatever the instant, an
  earlier due date is more days overdue.
\<close>

lemma msPerDay_pos: "0 < msPerDay"
  by (simp add: msPerDay_def)

lemma daysOverdue_eq: "daysOverdue today due = - ((- today) div msPerDay) - days_from_civil due"
proof -
  have "- (today - days_from_civil due * msPerDay) = - today + days_from_civil due * msPerDay"
    by simp
  moreover have "(- today + days_from_civil due * msPerDay) div msPerDay
      = days_from_civil due + (- today) div msPerDay"
    using msPerDay_pos div_mult_self1 [of msPerDay "- today" "days_from_civil due"] by simp
  ultimately show ?thesis
    by (simp add: daysOverdue_def getTime_def)
qed

lemma daysOverdue_less:
  "daysOverdue today a > daysOverdue today b \<longleftrightarrow> days_from_civil a < days_from_civil b"
  by (simp add: daysOverdue_eq)

lemma more_urgent_code:
  "more_urgent today_day a b \<longleftrightarrow>
     (getServicePriority (DeviceOverdue.due_type a) > getServicePriority (DeviceOverdue.due_type b)
      \<or> (getServicePriority (DeviceOverdue.due_type a) = getServicePriority (DeviceOverdue.due_type b)
          \<and> daysOverdue today (DeviceOverdue.due_date a) > daysOverdue today (DeviceOverdue.due_date b)))"
  by (auto simp add: more_urgent_def days_overdue_calendar_def daysOverdue_less)

lemma more_urgent_trans:
  "more_urgent T a b \<Longrightarrow> more_urgent T b c \<Longrightarrow> more_urgent T a c"
  by (auto simp add: more_urgent_def)

lemma more_urgent_neg_trans:
  "more_urgent T a b \<Longrightarrow> \<not> more_urgent T c b \<Longrightarrow> more_urgent T a c"
  by (auto simp add: more_urgent_def)

lemma reducer_simp:
  "reducer today acc device =
     (if replaces today_day acc device
      then AList.update (clientKey device)
             ((group_of acc device)\<lparr>overdue_group.devices :=
                 AList.update (deviceKey device) device (overdue_group.devices (group_of acc device))\<rparr>) acc
      else acc)"
proof (cases "map_of acc (clientKey device)")
  case None
  then show ?thesis
    by (simp add: reducer_def replaces_def group_of_def fresh_group_def Let_def)
next
  case (Some g)
  then show ?thesis
    by (simp add: reducer_def replaces_def group_of_def Let_def more_urgent_code [of today_day _ _ today]
        split: option.split)
qed

text \<open>Reducing one more record keeps the accumulator in order.\<close>

lemma same_device_keys: "same_device a b \<longleftrightarrow> clientKey a = clientKey b \<and> deviceKey a = deviceKey b"
  by (simp add: same_device_def)

lemma first_max_keep:
  assumes "first_max T devs r" and "same_device d r \<Longrightarrow> \<not> more_urgent T d r"
  shows "first_max T (devs @ [d]) r"
proof -
  from assms(1) obtain pre post where devs: "devs = pre @ r # post"
    and pre: "\<forall>x \<in> set pre. same_device x r \<longrightarrow> more_urgent T r x"
    and post: "\<forall>x \<in> set post. same_device x r \<longrightarrow> \<not> more_urgent T x r"
    unfolding first_max_def by blast
  have "devs @ [d] = pre @ r # (post @ [d])" by (simp add: devs)
  moreover from post assms(2)
  have "\<forall>x \<in> set (post @ [d]). same_device x r \<longrightarrow> \<not> more_urgent T x r" by auto
  ultimately show ?thesis
    unfolding first_max_def using pre by blast
qed

lemma first_max_new:
  assumes "\<And>x. x \<in> set devs \<Longrightarrow> same_device x d \<Longrightarrow> more_urgent T d x"
  shows "first_max T (devs @ [d]) d"
proof -
  have "devs @ [d] = devs @ d # []" by simp
  moreover have "\<forall>x \<in> set devs. same_device x d \<longrightarrow> more_urgent T d x"
    using assms by blast
  moreover have "\<forall>x \<in> set []. same_device x d \<longrightarrow> \<not> more_urgent T x d" by simp
  ultimately show ?thesis
    unfolding first_max_def by blast
qed

lemma first_max_beaten:
  assumes fm: "first_max T devs ex" and sd: "same_device ex d" and mu: "more_urgent T d ex"
    and x: "x \<in> set devs" and sx: "same_device x d"
  shows "more_urgent T d x"
proof -
  from fm obtain pre post where devs: "devs = pre @ ex # post"
    and pre: "\<forall>y \<in> set pre. same_device y ex \<longrightarrow> more_urgent T ex y"
    and post: "\<forall>y \<in> set post. same_device y ex \<longrightarrow> \<not> more_urgent T y ex"
    unfolding first_max_def by blast
  from sd sx have sxe: "same_device x ex" by (simp add: same_device_def)
  from x devs consider "x \<in> set pre" | "x = ex" | "x \<in> set post" by auto
  then show ?thesis
  proof cases
    case 1
    with pre sxe have "more_urgent T ex x" by blast
    with mu show ?thesis by (rule more_urgent_trans)
  next
    case 2
    with mu show ?thesis by simp
  next
    case 3
    with post sxe have "\<not> more_urgent T x ex" by blast
    with mu show ?thesis by (rule more_urgent_neg_trans)
  qed
qed

lemma acc_inv_step:
  assumes inv: "acc_inv T devs acc"
  shows "acc_inv T (devs @ [d]) (reducer today acc d)"
proof -
  let ?ck = "clientKey d" and ?dk = "deviceKey d"
  let ?grp = "group_of acc d"
  from inv have dist: "distinct (map fst acc)"
    and gdist: "\<And>ck g. map_of acc ck = Some g \<Longrightarrow> distinct (map fst (overdue_group.devices g))"
    and entry: "\<And>ck g dk r. map_of acc ck = Some g \<Longrightarrow> map_of (overdue_group.devices g) dk = Some r
        \<Longrightarrow> clientKey r = ck \<and> deviceKey r = dk \<and> first_max T devs r"
    and present: "\<And>x. x \<in> set devs \<Longrightarrow> \<exists>g. map_of acc (clientKey x) = Some g
        \<and> map_of (overdue_group.devices g) (deviceKey x) \<noteq> None"
    unfolding acc_inv_def by blast+
  have grp_dist: "distinct (map fst (overdue_group.devices ?grp))"
    by (cases "map_of acc ?ck") (simp_all add: group_of_def fresh_group_def gdist)
  have grp_entry: "clientKey r = ?ck \<and> deviceKey r = dk \<and> first_max T devs r"
    if "map_of (overdue_group.devices ?grp) dk = Some r" for dk r
    using that by (cases "map_of acc ?ck") (simp_all add: group_of_def fresh_group_def entry)
  have grp_present: "map_of (overdue_group.devices ?grp) (deviceKey x) \<noteq> None"
    if "x \<in> set devs" "clientKey x = ?ck" for x
    using present [OF that(1)] that(2) by (auto simp add: group_of_def)
  show ?thesis
  proof (cases "replaces T acc d")
    case False
    then obtain ex where ex: "map_of (overdue_group.devices ?grp) ?dk = Some ex"
      and keep: "\<not> more_urgent T d ex"
      by (auto simp add: replaces_def split: option.splits)
    then obtain g where g: "map_of acc ?ck = Some g"
      by (cases "map_of acc ?ck") (simp_all add: group_of_def fresh_group_def)
    then have grp: "?grp = g" by (simp add: group_of_def)
    from False have same: "reducer today acc d = acc"
      by (simp add: reducer_simp [of today acc d T])
    have "clientKey r = ck \<and> deviceKey r = dk \<and> first_max T (devs @ [d]) r"
      if m: "map_of acc ck = Some g'" and e: "map_of (overdue_group.devices g') dk = Some r" for ck g' dk r
    proof -
      from entry [OF m e] have k: "clientKey r = ck" "deviceKey r = dk" and fm: "first_max T devs r"
        by simp_all
      have "\<not> more_urgent T d r" if sd: "same_device d r"
      proof -
        from sd k have "ck = ?ck" "dk = ?dk" by (simp_all add: same_device_def)
        with m e g grp ex have "r = ex" by simp
        with keep show ?thesis by simp
      qed
      with fm have "first_max T (devs @ [d]) r" by (rule first_max_keep)
      with k show ?thesis by simp
    qed
    moreover have "\<exists>g. map_of acc (clientKey x) = Some g
        \<and> map_of (overdue_group.devices g) (deviceKey x) \<noteq> None" if "x \<in> set (devs @ [d])" for x
    proof (cases "x = d")
      case True
      with g grp ex show ?thesis by auto
    next
      case False
      with that have "x \<in> set devs" by simp
      then show ?thesis by (rule present)
    qed
    ultimately show ?thesis
      unfolding acc_inv_def same using dist gdist by blast
  next
    case True
    let ?grp' = "?grp\<lparr>overdue_group.devices := AList.update ?dk d (overdue_group.devices ?grp)\<rparr>"
    from True have upd: "reducer today acc d = AList.update ?ck ?grp' acc"
      by (simp add: reducer_simp [of today acc d T])
    have beats: "more_urgent T d x" if x: "x \<in> set devs" and sx: "same_device x d" for x
    proof -
      from sx have kx: "clientKey x = ?ck" "deviceKey x = ?dk" by (simp_all add: same_device_def)
      from grp_present [OF x kx(1)] kx(2) obtain ex
        where ex: "map_of (overdue_group.devices ?grp) ?dk = Some ex" by auto
      with True have mu: "more_urgent T d ex" by (simp add: replaces_def)
      from grp_entry [OF ex] have "first_max T devs ex" and "same_device ex d"
        by (simp_all add: same_device_def)
      then show ?thesis using mu x sx by (rule first_max_beaten)
    qed
    then have new: "first_max T (devs @ [d]) d" by (rule first_max_new)
    have d1: "distinct (map fst (reducer today acc d))"
      unfolding upd using dist by (rule distinct_update)
    have d2: "distinct (map fst (overdue_group.devices g'))"
      if "map_of (reducer today acc d) ck = Some g'" for ck g'
    proof (cases "ck = ?ck")
      case True
      with that have "g' = ?grp'" by (simp add: upd update_conv')
      with grp_dist show ?thesis by (simp add: distinct_update)
    next
      case False
      with that have "map_of acc ck = Some g'" by (simp add: upd update_conv')
      then show ?thesis by (rule gdist)
    qed
    have d3: "clientKey r = ck \<and> deviceKey r = dk \<and> first_max T (devs @ [d]) r"
      if m: "map_of (reducer today acc d) ck = Some g'"
        and e: "map_of (overdue_group.devices g') dk = Some r" for ck g' dk r
    proof (cases "ck = ?ck")
      case ck: True
      with m have g': "g' = ?grp'" by (simp add: upd update_conv')
      show ?thesis
      proof (cases "dk = ?dk")
        case True
        with e g' have "r = d" by (simp add: update_conv')
        with ck True new show ?thesis by simp
      next
        case False
        with e g' have old: "map_of (overdue_group.devices ?grp) dk = Some r"
          by (simp add: update_conv')
        from grp_entry [OF old] have k: "clientKey r = ?ck" "deviceKey r = dk"
          and fm: "first_max T devs r" by simp_all
        from False k have nsd: "\<not> same_device d r" by (simp add: same_device_def)
        from fm have "first_max T (devs @ [d]) r" by (rule first_max_keep) (simp add: nsd)
        with k ck show ?thesis by simp
      qed
    next
      case False
      with m have old: "map_of acc ck = Some g'" by (simp add: upd update_conv')
      from entry [OF old e] have k: "clientKey r = ck" "deviceKey r = dk"
        and fm: "first_max T devs r" by simp_all
      from False k have nsd: "\<not> same_device d r" by (auto simp add: same_device_def)
      from fm have "first_max T (devs @ [d]) r" by (rule first_max_keep) (simp add: nsd)
      with k show ?thesis by simp
    qed
    have d4: "\<exists>g. map_of (reducer today acc d) (clientKey x) = Some g
        \<and> map_of (overdue_group.devices g) (deviceKey x) \<noteq> None" if "x \<in> set (devs @ [d])" for x
    proof (cases "clientKey x = ?ck")
      case True
      have "map_of (overdue_group.devices ?grp') (deviceKey x) \<noteq> None"
      proof (cases "x = d")
        case True
        then show ?thesis by (simp add: update_conv')
      next
        case False
        with that have "x \<in> set devs" by simp
        from grp_present [OF this True] show ?thesis by (simp add: update_conv')
      qed
      with True show ?thesis by (simp add: upd update_conv')
    next
      case False
      then have "x \<noteq> d" by auto
      with that have "x \<in> set devs" by simp
      from present [OF this] False show ?thesis by (simp add: upd update_conv')
    qed
    from d1 d2 d3 d4 show ?thesis
      unfolding acc_inv_def by blast
  qed
qed

lemma reduce_from_inv:
  "acc_inv T pre acc \<Longrightarrow> acc_inv T (pre @ devs) (reduce_from clock i acc devs)"
proof (induction devs arbitrary: pre acc i)
  case Nil
  then show ?case by simp
next
  case (Cons d devs)
  from Cons.prems have "acc_inv T (pre @ [d]) (reducer (clock i) acc d)"
    by (rule acc_inv_step)
  then have "acc_inv T ((pre @ [d]) @ devs) (reduce_from clock (Suc i) (reducer (clock i) acc d) devs)"
    by (rule Cons.IH)
  then show ?case by simp
qed

lemma groupedDevices_inv: "acc_inv T devs (groupedDevices clock devs)"
proof -
  have "acc_inv T [] []" by (simp add: acc_inv_def)
  then have "acc_inv T ([] @ devs) (reduce_from clock 0 [] devs)" by (rule reduce_from_inv)
  then show ?thesis by (simp add: groupedDevices_def)
qed

lemma retained_eq:
  "retained clock devs
     = concat (map (\<lambda>(k, g). map snd (overdue_group.devices g)) (groupedDevices clock devs))"
  by (simp add: retained_def clientGroups_def o_def case_prod_unfold)

lemma distinct_nested:
  assumes "distinct (map fst acc)"
    and "\<And>ck g. (ck, g) \<in> set acc \<Longrightarrow> distinct (map fst (overdue_group.devices g))"
    and "\<And>ck g dk r. (ck, g) \<in> set acc \<Longrightarrow> (dk, r) \<in> set (overdue_group.devices g)
           \<Longrightarrow> device_identity r = (ck, dk)"
  shows "distinct (map device_identity (concat (map (\<lambda>(k, g). map snd (overdue_group.devices g)) acc)))"
  using assms
proof (induction acc)
  case Nil
  show ?case by simp
next
  case (Cons p acc)
  obtain ck g where p: "p = (ck, g)" by (cases p)
  have ids: "map device_identity (map snd (overdue_group.devices g))
      = map (Pair ck) (map fst (overdue_group.devices g))"
    using Cons.prems(3) [of ck g] by (auto simp add: p)
  have "distinct (map fst (overdue_group.devices g))"
    using Cons.prems(2) [of ck g] by (simp add: p)
  then have here: "distinct (map device_identity (map snd (overdue_group.devices g)))"
    unfolding ids by (simp add: distinct_map inj_on_def)
  have rest: "distinct (map device_identity
      (concat (map (\<lambda>(k, g). map snd (overdue_group.devices g)) acc)))"
  proof (rule Cons.IH)
    show "distinct (map fst acc)" using Cons.prems(1) by simp
    show "distinct (map fst (overdue_group.devices g'))" if "(ck', g') \<in> set acc" for ck' g'
      using that Cons.prems(2) [of ck' g'] by simp
    show "device_identity r = (ck', dk)"
      if "(ck', g') \<in> set acc" "(dk, r) \<in> set (overdue_group.devices g')" for ck' g' dk r
      using that Cons.prems(3) [of ck' g' dk r] by simp
  qed
  let ?here = "map snd (overdue_group.devices g)"
  let ?rest = "concat (map (\<lambda>(k, g). map snd (overdue_group.devices g)) acc)"
  have apart: "device_identity a \<noteq> device_identity b"
    if a: "a \<in> set ?here" and b: "b \<in> set ?rest" for a b
  proof -
    from a obtain dk where "(dk, a) \<in> set (overdue_group.devices g)" by auto
    with Cons.prems(3) [of ck g dk a] have ia: "fst (device_identity a) = ck" by (simp add: p)
    from b obtain ck' g' dk' where in_acc: "(ck', g') \<in> set acc"
      and "(dk', b) \<in> set (overdue_group.devices g')" by auto
    with Cons.prems(3) [of ck' g' dk' b] have ib: "fst (device_identity b) = ck'" by simp
    from in_acc have "ck' \<in> fst ` set acc" by force
    with Cons.prems(1) have "ck' \<noteq> ck" by (auto simp add: p)
    with ia ib show ?thesis by auto
  qed
  then have "\<forall>a \<in> set ?here. \<forall>b \<in> set ?rest. device_identity a \<noteq> device_identity b"
    by blast
  then have disj: "set (map device_identity ?here) \<inter> set (map device_identity ?rest) = {}"
    unfolding set_map by blast
  have "map device_identity (concat (map (\<lambda>(k, g). map snd (overdue_group.devices g)) (p # acc)))
      = map device_identity (map snd (overdue_group.devices g))
        @ map device_identity (concat (map (\<lambda>(k, g). map snd (overdue_group.devices g)) acc))"
    by (simp add: p)
  with here rest disj show ?case
    by (simp only: distinct_append simp_thms)
qed

lemma retained_mapped:
  assumes "r \<in> set (retained clock devs)"
  shows "\<exists>g dk. map_of (groupedDevices clock devs) (clientKey r) = Some g
           \<and> map_of (overdue_group.devices g) dk = Some r \<and> first_max T devs r"
proof -
  let ?acc = "groupedDevices clock devs"
  have inv: "acc_inv T devs ?acc" by (rule groupedDevices_inv)
  from assms obtain ck g dk where a: "(ck, g) \<in> set ?acc" and e: "(dk, r) \<in> set (overdue_group.devices g)"
    by (auto simp add: retained_eq)
  from inv have "distinct (map fst ?acc)" by (simp add: acc_inv_def)
  with a have m: "map_of ?acc ck = Some g" by simp
  with inv have "distinct (map fst (overdue_group.devices g))" unfolding acc_inv_def by blast
  with e have m': "map_of (overdue_group.devices g) dk = Some r" by simp
  from inv m m' have "clientKey r = ck \<and> deviceKey r = dk \<and> first_max T devs r"
    unfolding acc_inv_def by blast
  with m m' show ?thesis by blast
qed

lemma retained_distinct: "distinct (map device_identity (retained clock devs))"
proof -
  let ?acc = "groupedDevices clock devs"
  have inv: "acc_inv 0 devs ?acc" by (rule groupedDevices_inv)
  then have d: "distinct (map fst ?acc)" by (simp add: acc_inv_def)
  show ?thesis
    unfolding retained_eq
  proof (rule distinct_nested [OF d])
    fix ck g assume a: "(ck, g) \<in> set ?acc"
    with d have m: "map_of ?acc ck = Some g" by simp
    with inv show gd: "distinct (map fst (overdue_group.devices g))" unfolding acc_inv_def by blast
    fix dk r assume "(dk, r) \<in> set (overdue_group.devices g)"
    with gd have "map_of (overdue_group.devices g) dk = Some r" by simp
    with inv m show "device_identity r = (ck, dk)"
      unfolding acc_inv_def device_identity_def by blast
  qed
qed

lemma retained_covers:
  assumes "d \<in> set devs"
  shows "\<exists>r \<in> set (retained clock devs). same_device d r"
proof -
  let ?acc = "groupedDevices clock devs"
  have inv: "acc_inv 0 devs ?acc" by (rule groupedDevices_inv)
  with assms obtain g r where m: "map_of ?acc (clientKey d) = Some g"
    and e: "map_of (overdue_group.devices g) (deviceKey d) = Some r"
    unfolding acc_inv_def by fastforce
  from inv m e have k: "clientKey r = clientKey d \<and> deviceKey r = deviceKey d"
    unfolding acc_inv_def by blast
  from m have "(clientKey d, g) \<in> set ?acc" by (rule map_of_SomeD)
  moreover from e have "(deviceKey d, r) \<in> set (overdue_group.devices g)" by (rule map_of_SomeD)
  ultimately have "r \<in> set (retained clock devs)"
    unfolding retained_eq by force
  with k show ?thesis
    unfolding same_device_def by (intro bexI [of _ r]) simp_all
qed

lemma more_urgent_at_calendar: "more_urgent_at today a b \<longleftrightarrow> more_urgent today_day a b"
  unfolding more_urgent_at_def by (rule more_urgent_code [symmetric])

lemma ceiling_quotient:
  fixes x D n :: int
  assumes D: "0 < D"
  shows "- ((- x) div D) = n \<longleftrightarrow> (n - 1) * D < x \<and> x \<le> n * D"
proof
  assume "- ((- x) div D) = n"
  then have q: "(- x) div D = - n" by simp
  have "- x = D * ((- x) div D) + (- x) mod D" by simp
  then have e: "- x = D * (- n) + (- x) mod D" unfolding q .
  have lo: "0 \<le> (- x) mod D" using D by simp
  have hi: "(- x) mod D < D" using D by simp
  from e lo have "x \<le> n * D" by (simp add: algebra_simps)
  moreover from e hi have "(n - 1) * D < x" by (simp add: algebra_simps)
  ultimately show "(n - 1) * D < x \<and> x \<le> n * D" by simp
next
  assume b: "(n - 1) * D < x \<and> x \<le> n * D"
  have "- x = D * (- n) + (n * D - x)" by (simp add: algebra_simps)
  then have "(- x) div D = - n"
    by (rule int_div_pos_eq) (use b in \<open>simp_all add: algebra_simps\<close>)
  then show "- ((- x) div D) = n" by simp
qed

lemma daysOverdue_ceiling:
  "daysOverdue today due = n \<longleftrightarrow>
     (n - 1) * msPerDay < today - getTime due \<and> today - getTime due \<le> n * msPerDay"
  unfolding daysOverdue_def using msPerDay_pos by (rule ceiling_quotient)

lemma daysOverdue_calendar:
  "daysOverdue today due
     = days_overdue_calendar (today div msPerDay) due + (if today mod msPerDay = 0 then 0 else 1)"
  using msPerDay_pos
  by (simp add: daysOverdue_eq days_overdue_calendar_def zdiv_zminus1_eq_if)

lemma retained_first_max_at:
  assumes "r \<in> set (retained clock devs)"
  shows "\<exists>pre post. devs = pre @ r # post
        \<and> (\<forall>d \<in> set pre. same_device d r \<longrightarrow> more_urgent_at today r d)
        \<and> (\<forall>d \<in> set post. same_device d r \<longrightarrow> \<not> more_urgent_at today d r)"
  using retained_mapped [OF assms, of 0]
  unfolding first_max_def more_urgent_at_calendar [of today _ _ 0] by blast

text \<open>
  C2, as the code has it. For every input list, whatever the clock reads and for every
  instant \<open>today\<close>: each record the resolver keeps is the first most urgent record of its
  device in the input, where a record is more urgent than another when its interval
  priority is higher or, at equal priority, its days overdue at \<open>today\<close> are more; no two
  kept records are of the same device; every device of the input keeps a record. The days
  overdue of a due date at \<open>today\<close> are the exact time elapsed since the midnight that
  begins the due date, in days, rounded up: the one integer \<open>n\<close> with
  \<open>(n - 1)\<close> days \<open><\<close> elapsed \<open>\<le> n\<close> days. The instant is not cut down to its day: the
  count is the number of calendar days from the due date to the day of \<open>today\<close>, and one
  more whenever \<open>today\<close> is not itself a midnight. The calendar count up to any day orders
  two records the same way as the count of the code. The priorities are ordered six
  months over four months over three months.
\<close>

theorem C2_most_urgent_per_device:
  "(\<forall>r \<in> set (retained clock devs).
      \<exists>pre post. devs = pre @ r # post
        \<and> (\<forall>d \<in> set pre. same_device d r \<longrightarrow> more_urgent_at today r d)
        \<and> (\<forall>d \<in> set post. same_device d r \<longrightarrow> \<not> more_urgent_at today d r))
   \<and> distinct (map device_identity (retained clock devs))
   \<and> (\<forall>d \<in> set devs. \<exists>r \<in> set (retained clock devs). same_device d r)
   \<and> (daysOverdue today due = n \<longleftrightarrow>
        (n - 1) * msPerDay < today - getTime due \<and> today - getTime due \<le> n * msPerDay)
   \<and> daysOverdue today due
       = days_overdue_calendar (today div msPerDay) due + (if today mod msPerDay = 0 then 0 else 1)
   \<and> (more_urgent_at today a b \<longleftrightarrow> more_urgent today_day a b)
   \<and> getServicePriority ''due_6_months'' > getServicePriority ''due_4_months''
   \<and> getServicePriority ''due_4_months'' > getServicePriority ''due_3_months''"
proof -
  have prio: "getServicePriority ''due_6_months'' > getServicePriority ''due_4_months''
      \<and> getServicePriority ''due_4_months'' > getServicePriority ''due_3_months''"
    by (simp add: getServicePriority_def)
  from retained_first_max_at [of _ clock devs today] retained_distinct [of clock devs]
    retained_covers [of _ devs clock] daysOverdue_ceiling [of today due n]
    daysOverdue_calendar [of today due] more_urgent_at_calendar [of today a b today_day] prio
  show ?thesis by blast
qed

lemma feb_days: "days_from_civil feb01 = 19754" "days_from_civil feb10 = 19763"
  by (simp_all add: days_from_civil_def feb01_def feb10_def)

lemma resolver_example:
  "retained clock
     [overdue ''d1'' ''Bedroom AC'' ''A'' ''Home'' ''due_3_months'' feb01,
      overdue ''d1'' ''Bedroom AC'' ''A'' ''Home'' ''due_6_months'' feb10,
      overdue ''d2'' ''Kitchen AC'' ''A'' ''Home'' ''due_3_months'' feb10,
      overdue ''d2'' ''Kitchen AC'' ''A'' ''Home'' ''due_3_months'' feb01]
   = [overdue ''d1'' ''Bedroom AC'' ''A'' ''Home'' ''due_6_months'' feb10,
      overdue ''d2'' ''Kitchen AC'' ''A'' ''Home'' ''due_3_months'' feb01]"
  by (simp add: retained_def clientGroups_def groupedDevices_def reducer_def Let_def overdue_def
      clientKey_def deviceKey_def getServicePriority_def daysOverdue_less feb_days)

lemma feb_elapsed:
  "14 * msPerDay < afternoon_due_day - getTime feb01"
  "afternoon_due_day - getTime feb01 \<le> 15 * msPerDay"
  "afternoon_due_day div msPerDay = 19768"
  "afternoon_due_day mod msPerDay \<noteq> 0"
  by (simp_all add: getTime_def feb_days afternoon_due_day_def msPerDay_def)

lemma feb_urgency:
  "same_device (overdue ''d1'' ''Bedroom AC'' ''A'' ''Home'' ''due_3_months'' feb01)
               (overdue ''d1'' ''Bedroom AC'' ''A'' ''Home'' ''due_6_months'' feb10)"
  "more_urgent_at today (overdue ''d1'' ''Bedroom AC'' ''A'' ''Home'' ''due_6_months'' feb10)
                        (overdue ''d1'' ''Bedroom AC'' ''A'' ''Home'' ''due_3_months'' feb01)"
  "more_urgent_at today (overdue ''d2'' ''Kitchen AC'' ''A'' ''Home'' ''due_3_months'' feb01)
                        (overdue ''d2'' ''Kitchen AC'' ''A'' ''Home'' ''due_3_months'' feb10)"
  by (simp_all add: same_device_def more_urgent_at_def overdue_def clientKey_def deviceKey_def
      getServicePriority_def daysOverdue_less feb_days)

theorem C2_most_urgent_per_device_witness:
  "retained ticking_clock
     [overdue ''d1'' ''Bedroom AC'' ''A'' ''Home'' ''due_3_months'' feb01,
      overdue ''d1'' ''Bedroom AC'' ''A'' ''Home'' ''due_6_months'' feb10,
      overdue ''d2'' ''Kitchen AC'' ''A'' ''Home'' ''due_3_months'' feb10,
      overdue ''d2'' ''Kitchen AC'' ''A'' ''Home'' ''due_3_months'' feb01]
   = [overdue ''d1'' ''Bedroom AC'' ''A'' ''Home'' ''due_6_months'' feb10,
      overdue ''d2'' ''Kitchen AC'' ''A'' ''Home'' ''due_3_months'' feb01]
   \<and> same_device (overdue ''d1'' ''Bedroom AC'' ''A'' ''Home'' ''due_3_months'' feb01)
                   (overdue ''d1'' ''Bedroom AC'' ''A'' ''Home'' ''due_6_months'' feb10)
   \<and> more_urgent_at afternoon_due_day
        (overdue ''d1'' ''Bedroom AC'' ''A'' ''Home'' ''due_6_months'' feb10)
        (overdue ''d1'' ''Bedroom AC'' ''A'' ''Home'' ''due_3_months'' feb01)
   \<and> more_urgent_at afternoon_due_day
        (overdue ''d2'' ''Kitchen AC'' ''A'' ''Home'' ''due_3_months'' feb01)
        (overdue ''d2'' ''Kitchen AC'' ''A'' ''Home'' ''due_3_months'' feb10)
   \<and> (\<exists>pre post.
         [overdue ''d1'' ''Bedroom AC'' ''A'' ''Home'' ''due_3_months'' feb01,
          overdue ''d1'' ''Bedroom AC'' ''A'' ''Home'' ''due_6_months'' feb10,
          overdue ''d2'' ''Kitchen AC'' ''A'' ''Home'' ''due_3_months'' feb10,
          overdue ''d2'' ''Kitchen AC'' ''A'' ''Home'' ''due_3_months'' feb01]
           = pre @ overdue ''d2'' ''Kitchen AC'' ''A'' ''Home'' ''due_3_months'' feb01 # post
         \<and> (\<forall>d \<in> set pre. same_device d (overdue ''d2'' ''Kitchen AC'' ''A'' ''Home'' ''due_3_months'' feb01)
               \<longrightarrow> more_urgent_at afternoon_due_day
                     (overdue ''d2'' ''Kitchen AC'' ''A'' ''Home'' ''due_3_months'' feb01) d)
         \<and> (\<forall>d \<in> set post. same_device d (overdue ''d2'' ''Kitchen AC'' ''A'' ''Home'' ''due_3_months'' feb01)
               \<longrightarrow> \<not> more_urgent_at afternoon_due_day d
                     (overdue ''d2'' ''Kitchen AC'' ''A'' ''Home'' ''due_3_months'' feb01)))
   \<and> 14 * msPerDay < afternoon_due_day - getTime feb01
   \<and> afternoon_due_day - getTime feb01 \<le> 15 * msPerDay
   \<and> daysOverdue afternoon_due_day feb01 = 15
   \<and> afternoon_due_day mod msPerDay \<noteq> 0
   \<and> daysOverdue afternoon_due_day feb01 = days_overdue_calendar 19768 feb01 + 1"
proof -
  let ?devs = "[overdue ''d1'' ''Bedroom AC'' ''A'' ''Home'' ''due_3_months'' feb01,
      overdue ''d1'' ''Bedroom AC'' ''A'' ''Home'' ''due_6_months'' feb10,
      overdue ''d2'' ''Kitchen AC'' ''A'' ''Home'' ''due_3_months'' feb10,
      overdue ''d2'' ''Kitchen AC'' ''A'' ''Home'' ''due_3_months'' feb01]"
  note inst = C2_most_urgent_per_device [of ticking_clock ?devs afternoon_due_day feb01 15]
  from inst have sel: "\<forall>r \<in> set (retained ticking_clock ?devs).
      \<exists>pre post. ?devs = pre @ r # post
        \<and> (\<forall>d \<in> set pre. same_device d r \<longrightarrow> more_urgent_at afternoon_due_day r d)
        \<and> (\<forall>d \<in> set post. same_device d r \<longrightarrow> \<not> more_urgent_at afternoon_due_day d r)"
    by (rule conjunct1)
  from inst have count: "daysOverdue afternoon_due_day feb01 = 15 \<longleftrightarrow>
        (15 - 1) * msPerDay < afternoon_due_day - getTime feb01
        \<and> afternoon_due_day - getTime feb01 \<le> 15 * msPerDay"
    by blast
  from inst have cal: "daysOverdue afternoon_due_day feb01
       = days_overdue_calendar (afternoon_due_day div msPerDay) feb01
         + (if afternoon_due_day mod msPerDay = 0 then 0 else 1)"
    by blast
  from count feb_elapsed(1,2) have fifteen: "daysOverdue afternoon_due_day feb01 = 15" by simp
  from cal feb_elapsed(3,4)
  have more: "daysOverdue afternoon_due_day feb01 = days_overdue_calendar 19768 feb01 + 1" by simp
  from sel have "\<exists>pre post.
         ?devs = pre @ overdue ''d2'' ''Kitchen AC'' ''A'' ''Home'' ''due_3_months'' feb01 # post
         \<and> (\<forall>d \<in> set pre. same_device d (overdue ''d2'' ''Kitchen AC'' ''A'' ''Home'' ''due_3_months'' feb01)
               \<longrightarrow> more_urgent_at afternoon_due_day
                     (overdue ''d2'' ''Kitchen AC'' ''A'' ''Home'' ''due_3_months'' feb01) d)
         \<and> (\<forall>d \<in> set post. same_device d (overdue ''d2'' ''Kitchen AC'' ''A'' ''Home'' ''due_3_months'' feb01)
               \<longrightarrow> \<not> more_urgent_at afternoon_due_day d
                     (overdue ''d2'' ''Kitchen AC'' ''A'' ''Home'' ''due_3_months'' feb01))"
    by (simp add: resolver_example [of ticking_clock])
  with resolver_example [of ticking_clock] feb_urgency(1) feb_urgency(2,3) [of afternoon_due_day]
    feb_elapsed(1,2,4)
    fifteen more
  show ?thesis by simp
qed

text \<open>
  C2, the count by calendar days. At 15:00 UTC on 2024-02-15 a due date of 2024-02-01 is
  fifteen days overdue for the code, fourteen and five eighths days rounded up, and
  fourteen days overdue by the calendar.
\<close>

theorem C2_calendar_days_counterexample:
  "daysOverdue afternoon_due_day feb01 = 15
   \<and> days_overdue_calendar (afternoon_due_day div msPerDay) feb01 = 14"
  unfolding daysOverdue_eq days_overdue_calendar_def feb_days afternoon_due_day_def msPerDay_def
  by simp

section \<open>What counts as one device within a group\<close>

lemma deviceKey_names:
  "DeviceOverdue.id x = DeviceOverdue.id y \<Longrightarrow> DeviceOverdue.name x \<noteq> DeviceOverdue.name y
     \<Longrightarrow> deviceKey x \<noteq> deviceKey y"
  by (simp add: deviceKey_def)

lemma deviceKey_identity:
  "deviceKey x \<noteq> deviceKey y
     \<Longrightarrow> (DeviceOverdue.id x, DeviceOverdue.name x) \<noteq> (DeviceOverdue.id y, DeviceOverdue.name y)"
  by (auto simp add: deviceKey_def)

lemma two_names_retained:
  assumes "DeviceOverdue.id x = DeviceOverdue.id y" "DeviceOverdue.name x \<noteq> DeviceOverdue.name y"
  shows "retained clock [x, y] = [x, y]"
proof -
  from assms have "deviceKey x \<noteq> deviceKey y" by (rule deviceKey_names)
  then show ?thesis
    by (simp add: retained_def clientGroups_def groupedDevices_def reducer_def Let_def)
qed

lemma clientGroups_devices:
  assumes "g \<in> set (clientGroups clock devs)"
  shows "\<exists>ck g0. map_of (groupedDevices clock devs) ck = Some g0
           \<and> client_group.devices g = map snd (overdue_group.devices g0)"
proof -
  have "distinct (map fst (groupedDevices clock devs))"
    using groupedDevices_inv [of 0 devs clock] by (simp add: acc_inv_def)
  moreover from assms obtain ck g0 where "(ck, g0) \<in> set (groupedDevices clock devs)"
    and "client_group.devices g = map snd (overdue_group.devices g0)"
    by (auto simp add: clientGroups_def)
  ultimately show ?thesis by auto
qed

lemma group_distinct_keys:
  assumes "g \<in> set (clientGroups clock devs)"
  shows "distinct (map deviceKey (client_group.devices g))"
proof -
  from clientGroups_devices [OF assms] obtain ck g0
    where m: "map_of (groupedDevices clock devs) ck = Some g0"
      and g: "client_group.devices g = map snd (overdue_group.devices g0)" by blast
  have inv: "acc_inv 0 devs (groupedDevices clock devs)" by (rule groupedDevices_inv)
  with m have d: "distinct (map fst (overdue_group.devices g0))" unfolding acc_inv_def by blast
  have "deviceKey r = dk" if "(dk, r) \<in> set (overdue_group.devices g0)" for dk r
  proof -
    from d that have "map_of (overdue_group.devices g0) dk = Some r" by simp
    with inv m show ?thesis unfolding acc_inv_def by blast
  qed
  then have "map deviceKey (map snd (overdue_group.devices g0)) = map fst (overdue_group.devices g0)"
    by auto
  with d show ?thesis by (simp only: g)
qed

lemma deviceKey_ids:
  "DeviceOverdue.id x \<noteq> DeviceOverdue.id y
     \<Longrightarrow> DeviceOverdue.name x = DeviceOverdue.name y \<or> length (DeviceOverdue.id x) = length (DeviceOverdue.id y)
     \<Longrightarrow> deviceKey x \<noteq> deviceKey y"
  by (auto simp add: deviceKey_def)

lemma deviceKey_pair:
  assumes "DeviceOverdue.id x = DeviceOverdue.id y \<or> DeviceOverdue.name x = DeviceOverdue.name y
           \<or> length (DeviceOverdue.id x) = length (DeviceOverdue.id y)"
  shows "deviceKey x = deviceKey y
           \<longleftrightarrow> DeviceOverdue.id x = DeviceOverdue.id y \<and> DeviceOverdue.name x = DeviceOverdue.name y"
  using assms by (auto simp add: deviceKey_def)

lemma two_retained:
  "retained clock [x, y] = [x, y] \<longleftrightarrow> \<not> (clientKey x = clientKey y \<and> deviceKey x = deviceKey y)"
  by (simp add: retained_def clientGroups_def groupedDevices_def reducer_def Let_def)

lemma different_keys_both_retained:
  assumes x: "x \<in> set devs" and y: "y \<in> set devs" and ck: "clientKey x = clientKey y"
    and ne: "deviceKey x \<noteq> deviceKey y"
  shows "\<exists>g \<in> set (clientGroups clock devs).
           \<exists>rx \<in> set (client_group.devices g). \<exists>ry \<in> set (client_group.devices g).
             deviceKey rx = deviceKey x \<and> deviceKey ry = deviceKey y \<and> rx \<noteq> ry"
proof -
  let ?acc = "groupedDevices clock devs"
  have inv: "acc_inv 0 devs ?acc" by (rule groupedDevices_inv)
  from inv x obtain g0 rx where m: "map_of ?acc (clientKey x) = Some g0"
    and ex: "map_of (overdue_group.devices g0) (deviceKey x) = Some rx"
    unfolding acc_inv_def by fastforce
  from inv y ck m obtain ry where ey: "map_of (overdue_group.devices g0) (deviceKey y) = Some ry"
    unfolding acc_inv_def by fastforce
  from inv m ex have kx: "deviceKey rx = deviceKey x" unfolding acc_inv_def by blast
  from inv m ey have ky: "deviceKey ry = deviceKey y" unfolding acc_inv_def by blast
  from ne kx ky have neq: "rx \<noteq> ry" by auto
  let ?g = "\<lparr>client_group.client_name = overdue_group.client_name g0,
             client_group.location_name = overdue_group.location_name g0,
             client_group.devices = map snd (overdue_group.devices g0)\<rparr>"
  from m have "(clientKey x, g0) \<in> set ?acc" by (rule map_of_SomeD)
  then have "?g \<in> set (clientGroups clock devs)"
    unfolding clientGroups_def by force
  moreover from ex have "rx \<in> set (client_group.devices ?g)"
    using map_of_SomeD [OF ex] by force
  moreover from ey have "ry \<in> set (client_group.devices ?g)"
    using map_of_SomeD [OF ey] by force
  ultimately show ?thesis using kx ky neq by blast
qed

lemma group_distinct_pairs:
  assumes "g \<in> set (clientGroups clock devs)"
  shows "distinct (map (\<lambda>d. (DeviceOverdue.id d, DeviceOverdue.name d)) (client_group.devices g))"
proof -
  from group_distinct_keys [OF assms] have d: "distinct (client_group.devices g)"
    and inj: "inj_on deviceKey (set (client_group.devices g))"
    by (simp_all add: distinct_map)
  have "inj_on (\<lambda>d. (DeviceOverdue.id d, DeviceOverdue.name d)) (set (client_group.devices g))"
  proof (rule inj_onI)
    fix a b
    assume a: "a \<in> set (client_group.devices g)" and b: "b \<in> set (client_group.devices g)"
      and "(DeviceOverdue.id a, DeviceOverdue.name a) = (DeviceOverdue.id b, DeviceOverdue.name b)"
    then have "deviceKey a = deviceKey b" by (simp add: deviceKey_def)
    with inj a b show "a = b" by (auto dest: inj_onD)
  qed
  with d show ?thesis by (simp add: distinct_map)
qed

text \<open>
  C10. Within every group the kept records have pairwise different (id, name) pairs. Two
  records with the same id and different names are both kept when they are the input; and
  in any input, two such records of one group leave the group with two different kept
  records, one under the device key of each. The id counts as much as the name: of two
  records that are the input, alike in id or alike in name or with ids of one length, only
  one is kept exactly when they are of one group and agree in both id and name, so that
  two records of one name and different ids are both kept; and in any input, two records
  of one group with different ids, of one name or with ids of one length, leave the group
  with two different kept records, one under the device key of each.
\<close>

theorem C10_one_per_id_and_name:
  "(\<forall>g \<in> set (clientGroups clock devs).
      distinct (map (\<lambda>d. (DeviceOverdue.id d, DeviceOverdue.name d)) (client_group.devices g)))
   \<and> (DeviceOverdue.id x = DeviceOverdue.id y \<and> DeviceOverdue.name x \<noteq> DeviceOverdue.name y \<longrightarrow>
        retained clock [x, y] = [x, y])
   \<and> (\<forall>x \<in> set devs. \<forall>y \<in> set devs.
        clientKey x = clientKey y \<and> DeviceOverdue.id x = DeviceOverdue.id y
        \<and> DeviceOverdue.name x \<noteq> DeviceOverdue.name y \<longrightarrow>
        (\<exists>g \<in> set (clientGroups clock devs).
           \<exists>rx \<in> set (client_group.devices g). \<exists>ry \<in> set (client_group.devices g).
             deviceKey rx = deviceKey x \<and> deviceKey ry = deviceKey y \<and> rx \<noteq> ry))
   \<and> (DeviceOverdue.id x = DeviceOverdue.id y \<or> DeviceOverdue.name x = DeviceOverdue.name y
        \<or> length (DeviceOverdue.id x) = length (DeviceOverdue.id y) \<longrightarrow>
        (retained clock [x, y] = [x, y] \<longleftrightarrow>
           \<not> (clientKey x = clientKey y \<and> DeviceOverdue.id x = DeviceOverdue.id y
              \<and> DeviceOverdue.name x = DeviceOverdue.name y)))
   \<and> (\<forall>x \<in> set devs. \<forall>y \<in> set devs.
        clientKey x = clientKey y \<and> DeviceOverdue.id x \<noteq> DeviceOverdue.id y
        \<and> (DeviceOverdue.name x = DeviceOverdue.name y
            \<or> length (DeviceOverdue.id x) = length (DeviceOverdue.id y)) \<longrightarrow>
        (\<exists>g \<in> set (clientGroups clock devs).
           \<exists>rx \<in> set (client_group.devices g). \<exists>ry \<in> set (client_group.devices g).
             deviceKey rx = deviceKey x \<and> deviceKey ry = deviceKey y \<and> rx \<noteq> ry))"
proof -
  have names: "\<exists>g \<in> set (clientGroups clock devs).
           \<exists>rx \<in> set (client_group.devices g). \<exists>ry \<in> set (client_group.devices g).
             deviceKey rx = deviceKey x \<and> deviceKey ry = deviceKey y \<and> rx \<noteq> ry"
    if "x \<in> set devs" "y \<in> set devs" "clientKey x = clientKey y"
      "DeviceOverdue.id x = DeviceOverdue.id y" "DeviceOverdue.name x \<noteq> DeviceOverdue.name y" for x y
    using that(1-3) deviceKey_names [OF that(4,5)] by (rule different_keys_both_retained)
  have ids: "\<exists>g \<in> set (clientGroups clock devs).
           \<exists>rx \<in> set (client_group.devices g). \<exists>ry \<in> set (client_group.devices g).
             deviceKey rx = deviceKey x \<and> deviceKey ry = deviceKey y \<and> rx \<noteq> ry"
    if "x \<in> set devs" "y \<in> set devs" "clientKey x = clientKey y"
      "DeviceOverdue.id x \<noteq> DeviceOverdue.id y"
      "DeviceOverdue.name x = DeviceOverdue.name y
       \<or> length (DeviceOverdue.id x) = length (DeviceOverdue.id y)" for x y
    using that(1-3) deviceKey_ids [OF that(4,5)] by (rule different_keys_both_retained)
  have pair: "retained clock [x, y] = [x, y] \<longleftrightarrow>
           \<not> (clientKey x = clientKey y \<and> DeviceOverdue.id x = DeviceOverdue.id y
              \<and> DeviceOverdue.name x = DeviceOverdue.name y)"
    if "DeviceOverdue.id x = DeviceOverdue.id y \<or> DeviceOverdue.name x = DeviceOverdue.name y
        \<or> length (DeviceOverdue.id x) = length (DeviceOverdue.id y)"
    unfolding two_retained deviceKey_pair [OF that] ..
  from group_distinct_pairs [of _ clock devs] two_names_retained [of x y clock] names pair ids
  show ?thesis by blast
qed

lemma three_records_example:
  "clientGroups clock [overdue ''d1'' ''Bedroom AC'' ''A'' ''Home'' ''due_3_months'' feb01,
                       overdue ''d1'' ''Kitchen AC'' ''A'' ''Home'' ''due_3_months'' feb01,
                       overdue ''d2'' ''Kitchen AC'' ''A'' ''Home'' ''due_3_months'' feb01]
     = [\<lparr>client_group.client_name = ''A'', client_group.location_name = ''Home'',
         client_group.devices = [overdue ''d1'' ''Bedroom AC'' ''A'' ''Home'' ''due_3_months'' feb01,
                                 overdue ''d1'' ''Kitchen AC'' ''A'' ''Home'' ''due_3_months'' feb01,
                                 overdue ''d2'' ''Kitchen AC'' ''A'' ''Home'' ''due_3_months'' feb01]\<rparr>]"
  by (simp add: clientGroups_def groupedDevices_def reducer_def Let_def overdue_def clientKey_def
      deviceKey_def)

lemma same_pair_example:
  "retained clock [overdue ''d1'' ''Bedroom AC'' ''A'' ''Home'' ''due_3_months'' feb01,
                   overdue ''d1'' ''Bedroom AC'' ''A'' ''Home'' ''due_6_months'' feb10]
     = [overdue ''d1'' ''Bedroom AC'' ''A'' ''Home'' ''due_6_months'' feb10]"
  by (simp add: retained_def clientGroups_def groupedDevices_def reducer_def Let_def overdue_def
      clientKey_def deviceKey_def getServicePriority_def)

theorem C10_one_per_id_and_name_witness:
  "DeviceOverdue.id (overdue ''d1'' ''Bedroom AC'' ''A'' ''Home'' ''due_3_months'' feb01)
     = DeviceOverdue.id (overdue ''d1'' ''Kitchen AC'' ''A'' ''Home'' ''due_3_months'' feb01)
   \<and> DeviceOverdue.name (overdue ''d1'' ''Bedroom AC'' ''A'' ''Home'' ''due_3_months'' feb01)
     \<noteq> DeviceOverdue.name (overdue ''d1'' ''Kitchen AC'' ''A'' ''Home'' ''due_3_months'' feb01)
   \<and> clientKey (overdue ''d1'' ''Bedroom AC'' ''A'' ''Home'' ''due_3_months'' feb01)
     = clientKey (overdue ''d1'' ''Kitchen AC'' ''A'' ''Home'' ''due_3_months'' feb01)
   \<and> retained ticking_clock [overdue ''d1'' ''Bedroom AC'' ''A'' ''Home'' ''due_3_months'' feb01,
                     overdue ''d1'' ''Kitchen AC'' ''A'' ''Home'' ''due_3_months'' feb01]
      = [overdue ''d1'' ''Bedroom AC'' ''A'' ''Home'' ''due_3_months'' feb01,
         overdue ''d1'' ''Kitchen AC'' ''A'' ''Home'' ''due_3_months'' feb01]
   \<and> DeviceOverdue.id (overdue ''d1'' ''Kitchen AC'' ''A'' ''Home'' ''due_3_months'' feb01)
     \<noteq> DeviceOverdue.id (overdue ''d2'' ''Kitchen AC'' ''A'' ''Home'' ''due_3_months'' feb01)
   \<and> DeviceOverdue.name (overdue ''d1'' ''Kitchen AC'' ''A'' ''Home'' ''due_3_months'' feb01)
     = DeviceOverdue.name (overdue ''d2'' ''Kitchen AC'' ''A'' ''Home'' ''due_3_months'' feb01)
   \<and> clientKey (overdue ''d1'' ''Kitchen AC'' ''A'' ''Home'' ''due_3_months'' feb01)
     = clientKey (overdue ''d2'' ''Kitchen AC'' ''A'' ''Home'' ''due_3_months'' feb01)
   \<and> retained ticking_clock [overdue ''d1'' ''Kitchen AC'' ''A'' ''Home'' ''due_3_months'' feb01,
                     overdue ''d2'' ''Kitchen AC'' ''A'' ''Home'' ''due_3_months'' feb01]
      = [overdue ''d1'' ''Kitchen AC'' ''A'' ''Home'' ''due_3_months'' feb01,
         overdue ''d2'' ''Kitchen AC'' ''A'' ''Home'' ''due_3_months'' feb01]
   \<and> retained ticking_clock [overdue ''d1'' ''Bedroom AC'' ''A'' ''Home'' ''due_3_months'' feb01,
                     overdue ''d1'' ''Bedroom AC'' ''A'' ''Home'' ''due_6_months'' feb10]
      = [overdue ''d1'' ''Bedroom AC'' ''A'' ''Home'' ''due_6_months'' feb10]
   \<and> retained ticking_clock [overdue ''d1'' ''Bedroom AC'' ''A'' ''Home'' ''due_3_months'' feb01,
                     overdue ''d1'' ''Bedroom AC'' ''A'' ''Home'' ''due_6_months'' feb10]
      \<noteq> [overdue ''d1'' ''Bedroom AC'' ''A'' ''Home'' ''due_3_months'' feb01,
          overdue ''d1'' ''Bedroom AC'' ''A'' ''Home'' ''due_6_months'' feb10]
   \<and> clientGroups ticking_clock [overdue ''d1'' ''Bedroom AC'' ''A'' ''Home'' ''due_3_months'' feb01,
                         overdue ''d1'' ''Kitchen AC'' ''A'' ''Home'' ''due_3_months'' feb01,
                         overdue ''d2'' ''Kitchen AC'' ''A'' ''Home'' ''due_3_months'' feb01]
     = [\<lparr>client_group.client_name = ''A'', client_group.location_name = ''Home'',
         client_group.devices = [overdue ''d1'' ''Bedroom AC'' ''A'' ''Home'' ''due_3_months'' feb01,
                                 overdue ''d1'' ''Kitchen AC'' ''A'' ''Home'' ''due_3_months'' feb01,
                                 overdue ''d2'' ''Kitchen AC'' ''A'' ''Home'' ''due_3_months'' feb01]\<rparr>]
   \<and> distinct (map (\<lambda>d. (DeviceOverdue.id d, DeviceOverdue.name d))
        [overdue ''d1'' ''Bedroom AC'' ''A'' ''Home'' ''due_3_months'' feb01,
         overdue ''d1'' ''Kitchen AC'' ''A'' ''Home'' ''due_3_months'' feb01,
         overdue ''d2'' ''Kitchen AC'' ''A'' ''Home'' ''due_3_months'' feb01])"
proof -
  let ?bed = "overdue ''d1'' ''Bedroom AC'' ''A'' ''Home'' ''due_3_months'' feb01"
  let ?bed6 = "overdue ''d1'' ''Bedroom AC'' ''A'' ''Home'' ''due_6_months'' feb10"
  let ?kit = "overdue ''d1'' ''Kitchen AC'' ''A'' ''Home'' ''due_3_months'' feb01"
  let ?kit2 = "overdue ''d2'' ''Kitchen AC'' ''A'' ''Home'' ''due_3_months'' feb01"
  have fields: "DeviceOverdue.id ?bed = DeviceOverdue.id ?kit"
    "DeviceOverdue.name ?bed \<noteq> DeviceOverdue.name ?kit"
    "clientKey ?bed = clientKey ?kit"
    "DeviceOverdue.id ?kit \<noteq> DeviceOverdue.id ?kit2"
    "DeviceOverdue.name ?kit = DeviceOverdue.name ?kit2"
    "clientKey ?kit = clientKey ?kit2"
    "DeviceOverdue.id ?bed = DeviceOverdue.id ?bed6"
    "DeviceOverdue.name ?bed = DeviceOverdue.name ?bed6"
    "clientKey ?bed = clientKey ?bed6"
    by (simp_all add: overdue_def clientKey_def)
  note names = C10_one_per_id_and_name [of ticking_clock "[?bed, ?kit, ?kit2]" ?bed ?kit]
  note ids = C10_one_per_id_and_name [of ticking_clock "[?bed, ?kit, ?kit2]" ?kit ?kit2]
  note same = C10_one_per_id_and_name [of ticking_clock "[?bed, ?kit, ?kit2]" ?bed ?bed6]
  from names fields(1,2) have r1: "retained ticking_clock [?bed, ?kit] = [?bed, ?kit]" by blast
  from ids fields(4,5) have r2: "retained ticking_clock [?kit, ?kit2] = [?kit, ?kit2]" by blast
  from same fields(7-9) have r3: "retained ticking_clock [?bed, ?bed6] \<noteq> [?bed, ?bed6]" by blast
  from names have "\<forall>g \<in> set (clientGroups ticking_clock [?bed, ?kit, ?kit2]).
      distinct (map (\<lambda>d. (DeviceOverdue.id d, DeviceOverdue.name d)) (client_group.devices g))"
    by (rule conjunct1)
  then have d: "distinct (map (\<lambda>d. (DeviceOverdue.id d, DeviceOverdue.name d)) [?bed, ?kit, ?kit2])"
    by (simp add: three_records_example [of ticking_clock])
  from fields(1-6) r1 r2 r3 same_pair_example [of ticking_clock] three_records_example [of ticking_clock] d
  show ?thesis by (simp only: simp_thms)
qed

end
